theory Spec2Isabelle
  imports Complex_Main "HOL-Library.Sublist"
begin

section \<open>Conventions\<close>

text \<open>
  The extension is TypeScript. A JavaScript \<open>number\<close> that the code uses as a count or an
  index is an \<open>int\<close>; one that carries a fraction (a weight, a percentage typed into an
  input, a random draw) is a \<open>real\<close>. Where a result depends on how a double is rounded,
  the operation is the rounded one of the section on JavaScript numbers: the sums and the
  tolerance test of probability validation, and range generation on arbitrary numbers.
  The other functions scale a draw by a whole number or compare numbers, and are computed
  on the reals. \<open>NaN\<close> stored in a number field and \<open>Infinity\<close> are outside this model;
  where the code produces \<open>NaN\<close> from a failed parse, the parse returns \<open>None\<close>.

  \<open>Math.random()\<close> is a parameter: one draw is a real \<open>r\<close> with \<open>0 \<le> r < 1\<close>, and a
  function that draws several times takes the sequence of draws \<open>rnd :: nat \<Rightarrow> real\<close>
  together with the number of draws made so far.
\<close>

datatype 'a js_value = JsNull | JsUndefined | JsVal 'a

text \<open>\<open>xs[i]\<close> on a JavaScript array: \<open>undefined\<close> outside the array.\<close>

definition js_index :: "'a list \<Rightarrow> int \<Rightarrow> 'a js_value" where
  "js_index xs i = (if 0 \<le> i \<and> i < int (length xs) then JsVal (xs ! nat i) else JsUndefined)"

section \<open>JavaScript numbers\<close>

text \<open>
  A finite \<open>number\<close> is an IEEE 754 double: zero, or \<open>m * 2 ^ e\<close> up to sign with a whole
  \<open>m\<close> below \<open>2 ^ 53\<close> and \<open>e \<ge> - 1074\<close>. \<open>+\<close>, \<open>-\<close> and \<open>*\<close> return the double nearest to
  the exact result, and of two equally near the one whose \<open>m\<close> is even; a decimal literal
  and \<open>parseFloat\<close> of a decimal text round the value written in the same way.
  \<open>toDouble\<close> is this rounding, for results below \<open>2 ^ 1024\<close> in magnitude (beyond, the
  code has \<open>Infinity\<close>).

  \<open>bitLength n\<close> is the number of binary digits of \<open>n\<close>, \<open>floorLog2 x\<close> the exponent of the
  power of two at or below a positive \<open>x\<close>, \<open>scaleBy x e\<close> is \<open>x * 2 ^ e\<close>, and
  \<open>roundHalfEven\<close> rounds to the nearest whole number, a tie to the even one.
\<close>

fun bitLength :: "nat \<Rightarrow> nat" where
  "bitLength n = (if n = 0 then 0 else Suc (bitLength (n div 2)))"

declare bitLength.simps [simp del]

definition floorLog2 :: "real \<Rightarrow> int" where
  "floorLog2 x = (if 1 \<le> x then int (bitLength (nat \<lfloor>x\<rfloor>)) - 1
                  else - int (bitLength (nat (\<lceil>1 / x\<rceil> - 1))))"

definition scaleBy :: "real \<Rightarrow> int \<Rightarrow> real" where
  "scaleBy x e = (if 0 \<le> e then x * 2 ^ nat e else x / 2 ^ nat (- e))"

definition roundHalfEven :: "real \<Rightarrow> int" where
  "roundHalfEven q =
     (let f = \<lfloor>q\<rfloor>; d = q - real_of_int f
      in if d < 1 / 2 then f else if 1 / 2 < d then f + 1 else if even f then f else f + 1)"

text \<open>
  The spacing of the doubles around \<open>x\<close> is \<open>2 ^ e\<close> with \<open>e = floorLog2 \<bar>x\<bar> - 52\<close>, and
  \<open>2 ^ (- 1074)\<close> for the numbers too small to have 53 digits.
\<close>

definition toDouble :: "real \<Rightarrow> real" where
  "toDouble x =
     (if x = 0 then 0
      else let e = max (floorLog2 \<bar>x\<bar> - 52) (- 1074);
               m = roundHalfEven (scaleBy \<bar>x\<bar> (- e))
           in sgn x * scaleBy (real_of_int m) e)"

definition isDouble :: "real \<Rightarrow> bool" where
  "isDouble x = (toDouble x = x)"

text \<open>\<open>x + y\<close>, \<open>x - y\<close> and \<open>x * y\<close> on doubles.\<close>

definition fadd :: "real \<Rightarrow> real \<Rightarrow> real" where
  "fadd x y = toDouble (x + y)"

definition fsub :: "real \<Rightarrow> real \<Rightarrow> real" where
  "fsub x y = toDouble (x - y)"

definition fmul :: "real \<Rightarrow> real \<Rightarrow> real" where
  "fmul x y = toDouble (x * y)"

section \<open>RandomizationEngine (src/lib/randomization.ts)\<close>

text \<open>
  \<^verbatim>\<open>static generatePick(options) {
    if (options.length === 0) return null;
    return options[Math.floor(Math.random() * options.length)]; }\<close>
\<close>

definition generatePick :: "'a list \<Rightarrow> real \<Rightarrow> 'a js_value" where
  "generatePick options r =
     (if length options = 0 then JsNull
      else js_index options \<lfloor>r * real (length options)\<rfloor>)"

text \<open>
  \<^verbatim>\<open>static generateRange(min: number, max: number): number {
    return Math.floor(Math.random() * (max - min + 1)) + min; }\<close>
  \<open>generate\<close> calls it with \<open>config.min || 0\<close> and \<open>config.max || 100\<close>, which are any
  numbers. \<open>generateRangeNumber\<close> is the function on numbers, each operation rounded as
  the code rounds it: the difference, the sum with 1, the product with the draw, and the
  sum with \<open>min\<close>; \<open>Math.floor\<close> of a double is exact.
\<close>

definition generateRangeNumber :: "real \<Rightarrow> real \<Rightarrow> real \<Rightarrow> real" where
  "generateRangeNumber mn mx r = fadd (real_of_int \<lfloor>fmul r (fadd (fsub mx mn) 1)\<rfloor>) mn"


subsection \<open>Pattern synthesis\<close>




text \<open>
  \<open>parseInt(s, 10)\<close>: leading white space, an optional sign, then the longest run of
  decimal digits; \<open>None\<close> (for \<open>NaN\<close>) when there is no digit. The white space of
  JavaScript among the 8-bit characters: space, tab, line feed, vertical tab, form feed,
  carriage return and no-break space.
\<close>

definition isWhiteSpace :: "char \<Rightarrow> bool" where
  "isWhiteSpace c = (c = CHR '' '' \<or> c = CHR 0x09 \<or> c = CHR 0x0A \<or> c = CHR 0x0B
                     \<or> c = CHR 0x0C \<or> c = CHR 0x0D \<or> c = CHR 0xA0)"















text \<open>
  The decimal text of a natural number, as a pattern writes the bounds of \<open>{n}\<close> and
  \<open>{n,m}\<close>; used to state what the quantifiers do.
\<close>

function decimal :: "nat \<Rightarrow> string" where
  "decimal n = (if n < 10 then [char_of (48 + n)] else decimal (n div 10) @ [char_of (48 + n mod 10)])"
  by pat_completeness auto
termination
  by (relation "measure id") auto

declare decimal.simps [simp del]

subsection \<open>Weighted selection\<close>

text \<open>
  \<open>a || d\<close> on a number that may be missing: \<open>d\<close> when the left side is \<open>undefined\<close> or \<open>0\<close>.
\<close>

definition numberOr :: "real option \<Rightarrow> real \<Rightarrow> real" where
  "numberOr a d = (case a of None \<Rightarrow> d | Some v \<Rightarrow> if v = 0 then d else v)"

text \<open>
  \<^verbatim>\<open>for (const option of options) {
    const optionKey = String(option);
    const weight = weights[optionKey] || 1;
    random -= weight;
    if (random <= 0) return option; }\<close>
  \<open>None\<close> when the loop ends without returning. The options are strings, the keys of
  \<open>weights\<close>; the record \<open>weights\<close> is an association list with one entry per key.
\<close>

fun weightedWalk :: "string list \<Rightarrow> (string \<times> real) list \<Rightarrow> real \<Rightarrow> string option" where
  "weightedWalk [] weights random = None"
| "weightedWalk (opt # rest) weights random =
     (let weight = numberOr (map_of weights opt) 1;
          random' = random - weight
      in if random' \<le> 0 then Some opt else weightedWalk rest weights random')"

text \<open>
  \<^verbatim>\<open>static generateWeighted(options, weights) {
    const totalWeight = Object.values(weights).reduce((a, b) => a + b, 0);
    if (totalWeight === 0) return this.generatePick(options);
    let random = Math.random() * totalWeight;
    for (...) {...}
    return options[options.length - 1]; }\<close>
  Either path makes one draw, \<open>r\<close>.
\<close>

definition generateWeighted :: "string list \<Rightarrow> (string \<times> real) list \<Rightarrow> real \<Rightarrow> string js_value" where
  "generateWeighted options weights r =
     (let totalWeight = foldl (\<lambda>a b. a + b) 0 (map snd weights) in
      if totalWeight = 0 then generatePick options r
      else case weightedWalk options weights (r * totalWeight) of
             Some opt \<Rightarrow> JsVal opt
           | None \<Rightarrow> js_index options (int (length options) - 1))"

subsection \<open>Validation of a randomization config\<close>

datatype randomization_type = Fixed | Pick | Range | Regex | Distribution | CustomJs

text \<open>
  \<open>RandomizationConfig\<close> of \<open>types/extension\<close>, with the fields validation reads:
  \<open>type\<close>, \<open>options\<close>, \<open>min\<close>, \<open>max\<close>, \<open>pattern\<close> and \<open>expression\<close> (\<open>value\<close>,
  \<open>distribution\<close> and \<open>weights\<close> are not read there). An optional field is an \<open>option\<close>;
  \<open>rtype = None\<close> is a missing or empty \<open>type\<close>. The options are strings here.
\<close>

record randomization_config =
  rtype :: "randomization_type option"
  options :: "string list option"
  minBound :: "real option"
  maxBound :: "real option"
  pattern :: "string option"
  expression :: "string option"

record validation_result =
  valid :: bool
  errors :: "string list"

text \<open>\<open>!s\<close> on an optional string: missing or empty.\<close>

definition stringMissing :: "string option \<Rightarrow> bool" where
  "stringMissing s = (case s of None \<Rightarrow> True | Some t \<Rightarrow> t = [])"

text \<open>\<open>!config.options || config.options.length === 0\<close>\<close>

definition optionsMissing :: "string list option \<Rightarrow> bool" where
  "optionsMissing os = (case os of None \<Rightarrow> True | Some xs \<Rightarrow> length xs = 0)"

text \<open>
  \<^verbatim>\<open>const errors: string[] = [];
  if (!config.type) { errors.push("Randomization type is required"); }
  switch (config.type) {
    case "pick":
      if (!config.options || config.options.length === 0) {
        errors.push("Pick requires at least one option"); }
      break;
    case "range":
    if (typeof config.min !== "number" || typeof config.max !== "number") {
      errors.push("Range requires min and max numbers"); }
    if ((config.min || 0) > (config.max || 100)) {
      errors.push("Min must be less than or equal to max"); }
    break;
    case "regex": if (!config.pattern) { errors.push("Regex requires a pattern"); } break;
    case "distribution": ... errors.push("Distribution requires options"); ... break;
    case "custom_js": if (!config.expression) { errors.push("Custom JS requires an expression"); } break; }
  return { valid: errors.length === 0, errors };\<close>
\<close>

definition validateConfig :: "randomization_config \<Rightarrow> validation_result" where
  "validateConfig config =
     (let errors0 = [];
          errors1 = (if rtype config = None then errors0 @ [''Randomization type is required'']
                     else errors0);
          errors2 =
            (case rtype config of
               Some Pick \<Rightarrow>
                 (if optionsMissing (options config)
                  then errors1 @ [''Pick requires at least one option''] else errors1)
             | Some Range \<Rightarrow>
                 (let e = (if minBound config = None \<or> maxBound config = None
                           then errors1 @ [''Range requires min and max numbers''] else errors1)
                  in if numberOr (minBound config) 0 > numberOr (maxBound config) 100
                     then e @ [''Min must be less than or equal to max''] else e)
             | Some Regex \<Rightarrow>
                 (if stringMissing (pattern config)
                  then errors1 @ [''Regex requires a pattern''] else errors1)
             | Some Distribution \<Rightarrow>
                 (if optionsMissing (options config)
                  then errors1 @ [''Distribution requires options''] else errors1)
             | Some CustomJs \<Rightarrow>
                 (if stringMissing (expression config)
                  then errors1 @ [''Custom JS requires an expression''] else errors1)
             | _ \<Rightarrow> errors1)
      in \<lparr>valid = (length errors2 = 0), errors = errors2\<rparr>)"

text \<open>A range from 5 down to 0: both bounds are numbers, and the minimum exceeds the maximum.\<close>

definition rangeFiveToZero :: randomization_config where
  "rangeFiveToZero = \<lparr>rtype = Some Range, options = None, minBound = Some 5, maxBound = Some 0,
                       pattern = None, expression = None\<rparr>"

section \<open>FormAutomator: probabilities (content script)\<close>

text \<open>
  \<^verbatim>\<open>for (let i = 0; i < remainder; i++) { probs[i] += 1; }\<close>
  A write past the end of the array would store \<open>NaN\<close> there; \<open>remainder\<close> is below the
  array's length at the only call (lemma \<open>remainder_below_count\<close>), and the list update
  of HOL, which ignores such a write, is never asked to.
\<close>

function incrementFirst :: "nat \<Rightarrow> int \<Rightarrow> int list \<Rightarrow> int list" where
  "incrementFirst i remainder probs =
     (if int i < remainder then incrementFirst (Suc i) remainder (probs[i := probs ! i + 1])
      else probs)"
  by pat_completeness auto
termination
  by (relation "measure (\<lambda>(i, remainder, probs). nat (remainder - int i))") auto

declare incrementFirst.simps [simp del]

text \<open>
  \<^verbatim>\<open>private defaultProbabilities(optionCount) {
    if (optionCount <= 0) return [];
    const base = Math.floor(100 / optionCount);
    const remainder = 100 - base * optionCount;
    const probs = Array(optionCount).fill(base);
    for (...) probs[i] += 1;
    return probs; }\<close>
\<close>

definition defaultProbabilities :: "int \<Rightarrow> int list" where
  "defaultProbabilities optionCount =
     (if optionCount \<le> 0 then []
      else let base = 100 div optionCount;
               remainder = 100 - base * optionCount;
               probs = replicate (nat optionCount) base
           in incrementFirst 0 remainder probs)"

text \<open>
  The test both branches of \<open>validateProbabilities\<close> apply to a sum:
  \<^verbatim>\<open>Math.abs(sum - 100) <= 0.1\<close>. The difference is rounded to a double, \<open>Math.abs\<close> is
  exact, and \<open>0.1\<close> is the double nearest to one tenth, which is a little above it.
\<close>

definition withinTolerance :: "real \<Rightarrow> bool" where
  "withinTolerance s = (\<bar>fsub s 100\<bar> \<le> toDouble (1 / 10))"

subsection \<open>The document, as the validation reads and writes it\<close>

text \<open>
  One \<open>input.g-form-tasker-prob-input\<close>: its \<open>data-question-id\<close>, its \<open>data-row-idx\<close>
  (only the inputs of a grid cell carry one) and \<open>parseFloat(input.value)\<close>, a double,
  where \<open>None\<close> is \<open>NaN\<close>. An input that shows the decimal text of \<open>v\<close> has the parsed
  value \<open>toDouble v\<close>.
\<close>

record prob_input =
  questionId :: string
  rowIdx :: "string option"
  parsedValue :: "real option"

datatype display = DisplayNone | DisplayBlock

text \<open>
  The text of an error container. The code renders
  \<^verbatim>\<open>`Probabilities for ${rowIndex} sum to ${sum.toFixed(1)}%. Please adjust to 100%.`\<close> and
  \<^verbatim>\<open>`Probabilities sum to ${sum.toFixed(1)}%. Please adjust to sum to 100%.`\<close>; the model
  keeps the row key and the sum the text is rendered from.
\<close>

datatype error_text = NoText | RowSumText string real | SumText real

record error_container =
  displayStyle :: display
  textContent :: error_text

text \<open>
  \<open>checkboxes d e\<close> is \<open>document.getElementById(`g-form-tasker-random-${e}`)\<close>, as its
  \<open>checked\<close> flag; \<open>errorContainers d e\<close> is
  \<open>document.getElementById(`g-form-tasker-error-${e}`)\<close>; \<open>None\<close> is \<open>null\<close>.
\<close>

record document =
  probInputs :: "prob_input list"
  checkboxes :: "string \<Rightarrow> bool option"
  errorContainers :: "string \<Rightarrow> error_container option"

datatype question_mode = ModeFixed | ModeRandom

datatype normalized_type = TypeText | TypeChoice | TypeScale | TypeDate | TypeGridRadio | TypeGridCheckbox

text \<open>The fields of \<open>QuestionConfig\<close> that validation and the submit handler read.\<close>

record question_config =
  entryId :: string
  mode :: question_mode
  qtype :: normalized_type

text \<open>\<open>Number.isNaN(num) ? 0 : num\<close>\<close>

definition nanAsZero :: "real option \<Rightarrow> real" where
  "nanAsZero num = (case num of None \<Rightarrow> 0 | Some v \<Rightarrow> v)"

text \<open>\<open>input.dataset.rowIdx ?? "0"\<close>\<close>

definition rowKeyOf :: "prob_input \<Rightarrow> string" where
  "rowKeyOf input = (case rowIdx input of None \<Rightarrow> ''0'' | Some k \<Rightarrow> k)"

text \<open>
  \<open>rowSums\<close> is a \<open>Map\<close>: an association list in insertion order, where setting a key that
  is present keeps its place.
  \<^verbatim>\<open>const current = rowSums.get(rowKey) || 0;
  rowSums.set(rowKey, current + (Number.isNaN(num) ? 0 : num));\<close>
\<close>

fun mapSet :: "string \<Rightarrow> real \<Rightarrow> (string \<times> real) list \<Rightarrow> (string \<times> real) list" where
  "mapSet k v [] = [(k, v)]"
| "mapSet k v ((k', v') # rest) = (if k' = k then (k, v) # rest else (k', v') # mapSet k v rest)"

definition addToRow :: "(string \<times> real) list \<Rightarrow> prob_input \<Rightarrow> (string \<times> real) list" where
  "addToRow rowSums input =
     (let rowKey = rowKeyOf input;
          num = parsedValue input;
          current = (case map_of rowSums rowKey of None \<Rightarrow> 0 | Some c \<Rightarrow> c)
      in mapSet rowKey (fadd current (nanAsZero num)) rowSums)"

text \<open>
  \<^verbatim>\<open>let allValid = true;
  for (const [rowKey, sum] of rowSums.entries()) {
    const validRow = Math.abs(sum - 100) <= 0.1;
    if (!validRow && allValid) { errorContainer.textContent = ...; errorContainer.style.display = "block"; }
    allValid = allValid && validRow; }\<close>
\<close>

fun checkRows :: "(string \<times> real) list \<Rightarrow> bool \<Rightarrow> error_container \<Rightarrow> bool \<times> error_container" where
  "checkRows [] allValid ec = (allValid, ec)"
| "checkRows ((rowKey, rowSum) # rest) allValid ec =
     (let validRow = withinTolerance rowSum;
          ec' = (if \<not> validRow \<and> allValid
                 then ec\<lparr>textContent := RowSumText rowKey rowSum, displayStyle := DisplayBlock\<rparr>
                 else ec)
      in checkRows rest (allValid \<and> validRow) ec')"

text \<open>
  \<open>validateProbabilities(entryId, checkbox, errorContainer, isGrid)\<close>: the result and the
  error container as the call leaves it. \<open>inputs\<close> are the probability inputs of the
  document whose \<open>data-question-id\<close> is \<open>entryId\<close>, in document order. The sum of the
  ungrouped branch is
  \<^verbatim>\<open>inputs.reduce((acc, input) => { const num = parseFloat(input.value);
    return acc + (Number.isNaN(num) ? 0 : num); }, 0)\<close>.
\<close>

definition validateProbabilities ::
  "document \<Rightarrow> string \<Rightarrow> bool \<Rightarrow> error_container \<Rightarrow> bool \<Rightarrow> bool \<times> error_container" where
  "validateProbabilities doc entry checked ec isGrid =
     (if \<not> checked then (True, ec\<lparr>displayStyle := DisplayNone\<rparr>)
      else let inputs = filter (\<lambda>input. questionId input = entry) (probInputs doc) in
        if length inputs = 0 then (True, ec\<lparr>displayStyle := DisplayNone\<rparr>)
        else let shouldGroupByRow = (isGrid \<or> list_ex (\<lambda>input. rowIdx input \<noteq> None) inputs) in
          if shouldGroupByRow then
            (let rowSums = foldl addToRow [] inputs;
                 (allValid, ec') = checkRows rowSums True ec
             in (allValid, if allValid then ec'\<lparr>displayStyle := DisplayNone\<rparr> else ec'))
          else
            (let sumAll = foldl (\<lambda>acc input. fadd acc (nanAsZero (parsedValue input))) 0 inputs;
                 valid = withinTolerance sumAll
             in (valid, if \<not> valid
                        then ec\<lparr>textContent := SumText sumAll, displayStyle := DisplayBlock\<rparr>
                        else ec\<lparr>displayStyle := DisplayNone\<rparr>)))"

text \<open>
  \<^verbatim>\<open>private ensureValidProbabilities() {
    let allValid = true;
    this.questions.forEach((config) => {
      if (config.mode !== "random") return;
      const checkbox = document.getElementById(...); const errorContainer = document.getElementById(...);
      if (checkbox && errorContainer) {
        const isGrid = config.type === "grid-radio" || config.type === "grid-checkbox";
        const valid = this.validateProbabilities(config.entryId, checkbox, errorContainer, isGrid);
        allValid = allValid && valid; } });
    return allValid; }\<close>
  \<open>this.questions\<close> is a \<open>Map\<close> keyed by the entry id; the list holds its values in
  insertion order.
\<close>

definition validateQuestion :: "bool \<times> document \<Rightarrow> question_config \<Rightarrow> bool \<times> document" where
  "validateQuestion st config =
     (let allValid = fst st; doc = snd st in
      if mode config \<noteq> ModeRandom then (allValid, doc)
      else case (checkboxes doc (entryId config), errorContainers doc (entryId config)) of
        (Some checked, Some ec) \<Rightarrow>
          (let isGrid = (qtype config = TypeGridRadio \<or> qtype config = TypeGridCheckbox);
               (valid, ec') = validateProbabilities doc (entryId config) checked ec isGrid
           in (allValid \<and> valid,
               doc\<lparr>errorContainers := (errorContainers doc)(entryId config := Some ec')\<rparr>))
      | _ \<Rightarrow> (allValid, doc))"

definition ensureValidProbabilities :: "question_config list \<Rightarrow> document \<Rightarrow> bool \<times> document" where
  "ensureValidProbabilities questions doc = foldl validateQuestion (True, doc) questions"

text \<open>
  The input that control injection creates for an option with no stored percentage:
  \<^verbatim>\<open>probInput.value = String(probabilities[optionText] ?? this.defaultProbabilities(options.length)[idx])\<close>,
  read back by \<open>parseFloat\<close>.
\<close>

definition defaultInput :: "string \<Rightarrow> int \<Rightarrow> prob_input" where
  "defaultInput e p = \<lparr>questionId = e, rowIdx = None, parsedValue = Some (real_of_int p)\<rparr>"

subsection \<open>The submit handler\<close>

record submission_config =
  count :: int
  intervalMin :: real
  intervalMax :: real

record form_automator =
  questions :: "question_config list"
  submissionConfig :: submission_config
  isSubmitting :: bool

text \<open>
  What one run of the handler does to the page, in order. \<open>fillForm\<close>, \<open>submitForm\<close> and
  \<open>clickSubmitAnother\<close> act on the live form and are recorded as events; the sleep
  carries its duration in milliseconds.
\<close>

datatype action = FillForm | SubmitForm | Sleep real | ClickSubmitAnother

text \<open>
  \<^verbatim>\<open>for (let i = 0; i < this.submissionConfig.count; i++) {
    this.fillForm(); await this.submitForm();
    if (i < this.submissionConfig.count - 1) {
      const interval = Math.random() * (intervalMax - intervalMin) + intervalMin;
      await this.sleep(interval * 1000); await this.clickSubmitAnother(); } }\<close>
  \<open>draw i\<close> is the draw made for the wait after iteration \<open>i\<close>.
\<close>

function submitLoop :: "submission_config \<Rightarrow> (nat \<Rightarrow> real) \<Rightarrow> nat \<Rightarrow> action list \<Rightarrow> action list" where
  "submitLoop cfg draw i events =
     (if int i < count cfg then
        (let events1 = events @ [FillForm, SubmitForm];
             events2 = (if int i < count cfg - 1
                        then (let interval = draw i * (intervalMax cfg - intervalMin cfg) + intervalMin cfg
                              in events1 @ [Sleep (interval * 1000), ClickSubmitAnother])
                        else events1)
         in submitLoop cfg draw (Suc i) events2)
      else events)"
  by pat_completeness auto
termination
  by (relation "measure (\<lambda>(cfg, draw, i, events). nat (count cfg - int i))") auto

declare submitLoop.simps [simp del]

text \<open>
  \<^verbatim>\<open>private async handleSubmit() {
    if (this.isSubmitting) return;
    if (!this.ensureValidProbabilities()) return;
    this.isSubmitting = true;
    for (...) {...}
    this.isSubmitting = false; }\<close>
  The result is the automator, the document and the events of the run.
\<close>

definition handleSubmit ::
  "form_automator \<Rightarrow> document \<Rightarrow> (nat \<Rightarrow> real) \<Rightarrow> form_automator \<times> document \<times> action list" where
  "handleSubmit a doc draw =
     (if isSubmitting a then (a, doc, [])
      else let (ok, doc') = ensureValidProbabilities (questions a) doc in
        if \<not> ok then (a, doc', [])
        else let a1 = a\<lparr>isSubmitting := True\<rparr>;
                 events = submitLoop (submissionConfig a1) draw 0 []
             in (a1\<lparr>isSubmitting := False\<rparr>, doc', events))"

subsection \<open>The claim's side of probability validation\<close>

text \<open>
  What the specification says of a field, written over the document without the
  handler's loops. The inputs of a field. The sum of a list of inputs as the code adds
  them: from 0, in document order, \<open>NaN\<close> counted as 0, each addition rounded to a
  double. The sum of one row of a grid. The row keys of a list of inputs, each once, in
  the order in which they first appear. Whether a sum is within the tolerance. Whether
  the sums a field is validated by (one per row when the inputs are grouped by row, their
  total otherwise) are outside the tolerance.
\<close>

definition inputsOf :: "document \<Rightarrow> string \<Rightarrow> prob_input list" where
  "inputsOf doc e = filter (\<lambda>input. questionId input = e) (probInputs doc)"

definition inputsTotal :: "prob_input list \<Rightarrow> real" where
  "inputsTotal inputs = foldl (\<lambda>acc input. fadd acc (nanAsZero (parsedValue input))) 0 inputs"

definition rowTotal :: "prob_input list \<Rightarrow> string \<Rightarrow> real" where
  "rowTotal inputs k = inputsTotal (filter (\<lambda>input. rowKeyOf input = k) inputs)"

definition firstSeen :: "string list \<Rightarrow> string list" where
  "firstSeen ks = foldl (\<lambda>acc k. if k \<in> set acc then acc else acc @ [k]) [] ks"

definition rowKeys :: "prob_input list \<Rightarrow> string list" where
  "rowKeys inputs = firstSeen (map rowKeyOf inputs)"

text \<open>A sum is within the tolerance: it differs from 100 by at most one tenth.\<close>

definition nearHundred :: "real \<Rightarrow> bool" where
  "nearHundred s = (\<bar>s - 100\<bar> \<le> 1 / 10)"

definition isGridType :: "question_config \<Rightarrow> bool" where
  "isGridType q = (qtype q = TypeGridRadio \<or> qtype q = TypeGridCheckbox)"

definition sumsViolated :: "bool \<Rightarrow> prob_input list \<Rightarrow> bool" where
  "sumsViolated isGrid inputs =
     (if isGrid \<or> list_ex (\<lambda>input. rowIdx input \<noteq> None) inputs
      then list_ex (\<lambda>k. \<not> nearHundred (rowTotal inputs k)) (map rowKeyOf inputs)
      else \<not> nearHundred (inputsTotal inputs))"

text \<open>
  What an error text must say to report the violation of a field: for inputs grouped by
  row, the first row (in the order in which the rows first appear) whose sum is outside
  the tolerance, together with that sum; otherwise the total.
\<close>

definition reportsViolation :: "bool \<Rightarrow> prob_input list \<Rightarrow> error_text \<Rightarrow> bool" where
  "reportsViolation isGrid inputs txt =
     (if isGrid \<or> list_ex (\<lambda>input. rowIdx input \<noteq> None) inputs
      then (case find (\<lambda>k. \<not> nearHundred (rowTotal inputs k)) (rowKeys inputs) of
              None \<Rightarrow> False
            | Some k \<Rightarrow> txt = RowSumText k (rowTotal inputs k))
      else txt = SumText (inputsTotal inputs))"

text \<open>
  The fields whose probabilities the handler checks: the field is in random mode, its
  toggle is in the document and checked, its error container is in the document, and it
  has at least one probability input.
\<close>

definition fieldViolates :: "document \<Rightarrow> question_config \<Rightarrow> bool" where
  "fieldViolates doc q =
     (mode q = ModeRandom
      \<and> checkboxes doc (entryId q) = Some True
      \<and> errorContainers doc (entryId q) \<noteq> None
      \<and> inputsOf doc (entryId q) \<noteq> []
      \<and> sumsViolated (isGridType q) (inputsOf doc (entryId q)))"

definition violationShown :: "document \<Rightarrow> question_config \<Rightarrow> document \<Rightarrow> bool" where
  "violationShown doc q doc' =
     (case errorContainers doc' (entryId q) of
        None \<Rightarrow> False
      | Some ec \<Rightarrow> displayStyle ec = DisplayBlock
                  \<and> reportsViolation (isGridType q) (inputsOf doc (entryId q)) (textContent ec))"

text \<open>
  The scenario of the specification: one choice field in random mode and a plan of three
  submissions. \<open>examplePage toggle container values\<close> is a document with one probability
  input of the field per value, the field's toggle in the given state (\<open>None\<close> when it is
  not in the document) and its error container, if \<open>container\<close> holds. \<open>busyAutomator\<close>
  is the automator while a run of it is in progress, \<open>zeroDraws\<close> makes every wait 0, and
  \<open>threeRounds\<close> is what three submissions do to the page.
\<close>

definition exampleQuestion :: question_config where
  "exampleQuestion = \<lparr>entryId = ''q1'', mode = ModeRandom, qtype = TypeChoice\<rparr>"

definition exampleAutomator :: form_automator where
  "exampleAutomator = \<lparr>questions = [exampleQuestion],
     submissionConfig = \<lparr>count = 3, intervalMin = 0, intervalMax = 0\<rparr>, isSubmitting = False\<rparr>"

definition examplePage :: "bool option \<Rightarrow> bool \<Rightarrow> real list \<Rightarrow> document" where
  "examplePage toggle container values =
     \<lparr>probInputs = map (\<lambda>v. \<lparr>questionId = ''q1'', rowIdx = None, parsedValue = Some v\<rparr>) values,
      checkboxes = (\<lambda>e. if e = ''q1'' then toggle else None),
      errorContainers = (\<lambda>e. if e = ''q1'' \<and> container
                              then Some \<lparr>displayStyle = DisplayNone, textContent = NoText\<rparr>
                              else None)\<rparr>"

definition busyAutomator :: form_automator where
  "busyAutomator = exampleAutomator\<lparr>isSubmitting := True\<rparr>"

definition zeroDraws :: "nat \<Rightarrow> real" where
  "zeroDraws i = 0"

definition threeRounds :: "action list" where
  "threeRounds = [FillForm, SubmitForm, Sleep 0, ClickSubmitAnother,
                  FillForm, SubmitForm, Sleep 0, ClickSubmitAnother,
                  FillForm, SubmitForm]"

section \<open>MappingEngine: option extraction (lib/mapping)\<close>

text \<open>
  The part of the DOM that option extraction reads: an element has a tag name (lower
  case), attributes and children; a text node has its text.
\<close>

datatype dom_node = Element string "(string \<times> string) list" "dom_node list" | TextNode string

text \<open>\<open>node.textContent\<close>\<close>

fun textContentOf :: "dom_node \<Rightarrow> string" where
  "textContentOf (TextNode t) = t"
| "textContentOf (Element tag attrs children) = concat (map textContentOf children)"

text \<open>The elements below a node, in document order (the node itself is not among them).\<close>

fun descendants :: "dom_node \<Rightarrow> dom_node list" where
  "descendants (TextNode t) = []"
| "descendants (Element tag attrs children) =
     concat (map (\<lambda>c. (case c of TextNode t \<Rightarrow> [] | Element g a cs \<Rightarrow> [c]) @ descendants c) children)"

definition getAttribute :: "dom_node \<Rightarrow> string \<Rightarrow> string option" where
  "getAttribute n name = (case n of TextNode t \<Rightarrow> None | Element tag attrs children \<Rightarrow> map_of attrs name)"

definition tagName :: "dom_node \<Rightarrow> string" where
  "tagName n = (case n of TextNode t \<Rightarrow> [] | Element tag attrs children \<Rightarrow> tag)"

text \<open>The selector \<open>[role='option']\<close>.\<close>

definition matchesOption :: "dom_node \<Rightarrow> bool" where
  "matchesOption n = (getAttribute n ''role'' = Some ''option'')"

text \<open>The selector \<open>label, [role='option'], span[role='presentation']\<close>.\<close>

definition matchesLabel :: "dom_node \<Rightarrow> bool" where
  "matchesLabel n = (tagName n = ''label'' \<or> getAttribute n ''role'' = Some ''option''
                     \<or> (tagName n = ''span'' \<and> getAttribute n ''role'' = Some ''presentation''))"

definition querySelectorAll :: "dom_node \<Rightarrow> (dom_node \<Rightarrow> bool) \<Rightarrow> dom_node list" where
  "querySelectorAll element selector = filter selector (descendants element)"

text \<open>\<open>s.trim()\<close>\<close>

definition trim :: "string \<Rightarrow> string" where
  "trim s = rev (dropWhile isWhiteSpace (rev (dropWhile isWhiteSpace s)))"

datatype question_type = ShortAnswer | Paragraph | Radio | Checkbox | Dropdown | LinearScale
  | DateQuestion | TimeQuestion | FileUpload | GridCheckbox | GridRadio

text \<open>
  \<^verbatim>\<open>if (type === "dropdown") {
    element.querySelectorAll("[role='option']").forEach((opt) => {
      const text = opt.textContent?.trim();
      if (text) options.push(text); });
  } else if (type === "radio" || type === "checkbox") {
    element.querySelectorAll("label, [role='option'], span[role='presentation']").forEach((label) => {
      const text = label.textContent?.trim();
      if (text && !options.includes(text)) options.push(text); }); }
  return options;\<close>
\<close>

definition pushOption :: "string list \<Rightarrow> dom_node \<Rightarrow> string list" where
  "pushOption opts opt = (let text = trim (textContentOf opt) in if text \<noteq> [] then opts @ [text] else opts)"

definition pushNewOption :: "string list \<Rightarrow> dom_node \<Rightarrow> string list" where
  "pushNewOption opts label =
     (let text = trim (textContentOf label)
      in if text \<noteq> [] \<and> text \<notin> set opts then opts @ [text] else opts)"

definition extractOptions :: "dom_node \<Rightarrow> question_type \<Rightarrow> string list" where
  "extractOptions element qt =
     (if qt = Dropdown then foldl pushOption [] (querySelectorAll element matchesOption)
      else if qt = Radio \<or> qt = Checkbox then foldl pushNewOption [] (querySelectorAll element matchesLabel)
      else [])"

text \<open>A dropdown whose list shows the option \<open>A\<close> twice, and the same markup as a radio group.\<close>

definition duplicateOptions :: dom_node where
  "duplicateOptions =
     Element ''div'' [(''role'', ''listbox'')]
       [Element ''div'' [(''role'', ''option'')] [TextNode ''A''],
        Element ''div'' [(''role'', ''option'')] [TextNode '' A ''],
        Element ''div'' [(''role'', ''option'')] [TextNode ''B'']]"

text \<open>The text option extraction reads from a node: \<open>node.textContent?.trim()\<close>.\<close>

definition optionText :: "dom_node \<Rightarrow> string" where
  "optionText n = trim (textContentOf n)"

section \<open>RunEngine (lib/run-engine)\<close>

text \<open>
  A thrown value. \<open>JsError m\<close> is \<open>new Error(m)\<close>; \<open>JsNamedError name m\<close> is an error object
  of another name (a \<open>TypeError\<close>, say) with its message; \<open>JsThrown t\<close> is any other thrown
  value, \<open>t\<close> being the text \<open>String\<close> makes of it. \<open>String(error)\<close> on an error object is
  \<open>Error.prototype.toString\<close>: the message when the name is empty, the name when the
  message is empty, and otherwise \<open>name + ": " + message\<close>. A thrown value on which
  \<open>String\<close> itself throws is outside this model.
\<close>

datatype js_error = JsError string | JsNamedError string string | JsThrown string

definition errorToString :: "js_error \<Rightarrow> string" where
  "errorToString e =
     (case e of
        JsError m \<Rightarrow> (if m = [] then ''Error'' else ''Error: '' @ m)
      | JsNamedError name m \<Rightarrow>
          (if name = [] then m else if m = [] then name else name @ '': '' @ m)
      | JsThrown t \<Rightarrow> t)"

text \<open>\<open>SubmissionError\<close>; its \<open>questionId\<close> is \<open>errorQuestionId\<close> here.\<close>

record submission_error =
  submissionIndex :: int
  errorQuestionId :: string
  message :: string
  timestamp :: int

text \<open>\<open>SubmissionProgress\<close>; the field \<open>errors\<close> of the source is \<open>runErrors\<close> here.\<close>

record submission_progress =
  totalSubmissions :: int
  completedSubmissions :: int
  failedSubmissions :: int
  isRunning :: bool
  currentSubmissionIndex :: int
  runErrors :: "submission_error list"
  lastSubmissionTime :: "int option"
  estimatedTimeRemaining :: "real option"

text \<open>
  \<open>SubmissionConfig\<close> of the run engine, with the fields the run loop reads; its \<open>count\<close> is
  \<open>submissionCount\<close> here, a whole number (the popup passes \<open>parseInt\<close> of its field).
  \<open>jitter\<close> and \<open>rateLimit\<close> only set how long the sleep between two submissions lasts.
\<close>

record run_config =
  submissionCount :: int
  delayMin :: real
  delayMax :: real
  stopOnError :: bool

text \<open>
  The module-level \<open>runningProcess\<close>, together with the progress object of the invocation
  of \<open>startRun\<close> that set it: \<open>None\<close> is \<open>null\<close>. \<open>aborted\<close> is
  \<open>abortController.signal.aborted\<close>.
\<close>

record run_frame =
  configId :: string
  aborted :: bool
  progress :: submission_progress

type_synonym engine = "run_frame option"

text \<open>
  What the world does while a run awaits: whether \<open>executeSingleSubmission\<close> of iteration
  \<open>i\<close> throws, what \<open>Date.now()\<close> returns when it settles, whether \<open>stopRun\<close> is called
  while the submission is pending, while the sleep after it is pending, or from the
  progress callback, and what the progress callback \<open>onProgress\<close> throws at the end of
  iteration \<open>i\<close>, if it throws.
\<close>

record run_env =
  startTime :: nat
  submissionResult :: "nat \<Rightarrow> js_error option"
  clock :: "nat \<Rightarrow> int"
  stopDuringSubmission :: "nat \<Rightarrow> bool"
  stopDuringSleep :: "nat \<Rightarrow> bool"
  stopInCallback :: "nat \<Rightarrow> bool"
  callbackThrows :: "nat \<Rightarrow> js_error option"

text \<open>
  \<^verbatim>\<open>static stopRun(): void {
    if (this.runningProcess) { this.runningProcess.abortController.abort(); } }\<close>
\<close>

definition abortFrame :: "run_frame \<Rightarrow> run_frame" where
  "abortFrame f = f\<lparr>aborted := True\<rparr>"

definition stopRun :: "engine \<Rightarrow> engine" where
  "stopRun e = (case e of None \<Rightarrow> None | Some f \<Rightarrow> Some (abortFrame f))"

text \<open>
  Inside the loop the running process is the loop's own frame \<open>f\<close>, so a call of \<open>stopRun\<close>
  that arrives while the loop awaits turns \<open>f\<close> into \<open>abortFrame f\<close>.
\<close>

text \<open>
  \<^verbatim>\<open>if (progress.completedSubmissions === 0) {
    const avgDelay = (config.delayMin + config.delayMax) / 2;
    const remaining = config.count - progress.currentSubmissionIndex;
    return remaining * avgDelay; }
  const elapsed = progress.lastSubmissionTime || Date.now();
  const avgTimePerSubmission = elapsed / progress.completedSubmissions;
  const remaining = config.count - progress.completedSubmissions;
  return remaining * avgTimePerSubmission;\<close>
\<close>

definition estimateTimeRemaining :: "run_config \<Rightarrow> submission_progress \<Rightarrow> int \<Rightarrow> real" where
  "estimateTimeRemaining config p now =
     (if completedSubmissions p = 0
      then real_of_int (submissionCount config - currentSubmissionIndex p)
             * ((delayMin config + delayMax config) / 2)
      else let elapsed = (case lastSubmissionTime p of None \<Rightarrow> now
                          | Some t \<Rightarrow> if t = 0 then now else t)
           in real_of_int (submissionCount config - completedSubmissions p)
                * (real_of_int elapsed / real_of_int (completedSubmissions p)))"

datatype loop_exit = Continue | Break | Throw js_error

text \<open>
  The end of an iteration:
  \<^verbatim>\<open>progress.estimatedTimeRemaining = this.estimateTimeRemaining(config, progress);
  onProgress(progress);\<close>
  The callback receives the progress object itself and may call \<open>stopRun\<close>. The call is
  inside the \<open>try\<close> block of \<open>startRun\<close>, which has a \<open>finally\<close> and no \<open>catch\<close>: what the
  callback throws leaves the loop as an exception.
\<close>

definition reportProgress :: "run_config \<Rightarrow> run_env \<Rightarrow> nat \<Rightarrow> run_frame \<Rightarrow> run_frame \<times> loop_exit" where
  "reportProgress config env i f =
     (let p = (progress f)\<lparr>estimatedTimeRemaining :=
                 Some (estimateTimeRemaining config (progress f) (clock env i))\<rparr>;
          f' = f\<lparr>progress := p\<rparr>
      in (if stopInCallback env i then abortFrame f' else f',
          case callbackThrows env i of None \<Rightarrow> Continue | Some err \<Rightarrow> Throw err))"

text \<open>
  \<^verbatim>\<open>if (i < config.count - 1) {
    const delay = this.calculateDelay(config, i);
    await this.sleep(delay, abortController.signal); }\<close>
  \<open>sleep\<close> rejects with \<open>Error("Aborted")\<close> when the signal is aborted as it is called or
  is aborted while it waits; the rejection leaves the loop as an exception.
\<close>

definition afterSubmission :: "run_config \<Rightarrow> run_env \<Rightarrow> nat \<Rightarrow> run_frame \<Rightarrow> run_frame \<times> loop_exit" where
  "afterSubmission config env i f =
     (if int i < submissionCount config - 1 then
        (if aborted f then (f, Throw (JsError ''Aborted''))
         else if stopDuringSleep env i then (abortFrame f, Throw (JsError ''Aborted''))
         else reportProgress config env i f)
      else reportProgress config env i f)"

text \<open>
  One pass through the body of the loop of \<open>startRun\<close>, at index \<open>i\<close>:
  \<^verbatim>\<open>if (abortController.signal.aborted) { progress.isRunning = false; break; }
  progress.currentSubmissionIndex = i + 1;
  try { await this.executeSingleSubmission(preset, config, i);
        progress.completedSubmissions++; progress.lastSubmissionTime = Date.now();
  } catch (error) {
        progress.failedSubmissions++;
        progress.errors.push({ submissionIndex: i + 1, questionId: "form",
                               message: String(error), timestamp: Date.now() });
        if (config.stopOnError) { throw error; } }\<close>
\<close>

definition runIteration :: "run_config \<Rightarrow> run_env \<Rightarrow> nat \<Rightarrow> run_frame \<Rightarrow> run_frame \<times> loop_exit" where
  "runIteration config env i f =
     (if aborted f then (f\<lparr>progress := (progress f)\<lparr>isRunning := False\<rparr>\<rparr>, Break)
      else
        let p1 = (progress f)\<lparr>currentSubmissionIndex := int i + 1\<rparr>;
            f1 = (if stopDuringSubmission env i then abortFrame f else f)
        in case submissionResult env i of
             Some err \<Rightarrow>
               (let p2 = p1\<lparr>failedSubmissions := failedSubmissions p1 + 1,
                            runErrors := runErrors p1 @
                              [\<lparr>submissionIndex = int i + 1, errorQuestionId = ''form'',
                                message = errorToString err, timestamp = clock env i\<rparr>]\<rparr>
                in if stopOnError config then (f1\<lparr>progress := p2\<rparr>, Throw err)
                   else afterSubmission config env i (f1\<lparr>progress := p2\<rparr>))
           | None \<Rightarrow>
               (let p2 = p1\<lparr>completedSubmissions := completedSubmissions p1 + 1,
                            lastSubmissionTime := Some (clock env i)\<rparr>
                in afterSubmission config env i (f1\<lparr>progress := p2\<rparr>)))"

text \<open>
  \<^verbatim>\<open>for (let i = 0; i < config.count; i++) { ... }\<close>: the frame as the loop leaves it, and
  the exception that left it, if one did.
\<close>

function runLoop :: "run_config \<Rightarrow> run_env \<Rightarrow> nat \<Rightarrow> run_frame \<Rightarrow> run_frame \<times> js_error option" where
  "runLoop config env i f =
     (if int i < submissionCount config then
        (case runIteration config env i f of
           (f', Continue) \<Rightarrow> runLoop config env (Suc i) f'
         | (f', Break) \<Rightarrow> (f', None)
         | (f', Throw err) \<Rightarrow> (f', Some err))
      else (f, None))"
  by pat_completeness auto
termination
  by (relation "measure (\<lambda>(config, env, i, f). nat (submissionCount config - int i))") auto

declare runLoop.simps [simp del]

text \<open>The progress object a run starts with.\<close>

definition initialProgress :: "run_config \<Rightarrow> submission_progress" where
  "initialProgress config =
     \<lparr>totalSubmissions = submissionCount config, completedSubmissions = 0, failedSubmissions = 0,
      isRunning = True, currentSubmissionIndex = 0, runErrors = [],
      lastSubmissionTime = None, estimatedTimeRemaining = None\<rparr>"

text \<open>
  The \<open>try { for ... } finally { progress.isRunning = false; this.runningProcess = null; }\<close>
  of an accepted call: the progress object as the \<open>finally\<close> block leaves it, and the
  exception that passes through the block, if any.
\<close>

definition runToEnd :: "run_config \<Rightarrow> run_env \<Rightarrow> submission_progress \<times> js_error option" where
  "runToEnd config env =
     (let f0 = \<lparr>configId = ''run-'' @ decimal (startTime env), aborted = False,
                progress = initialProgress config\<rparr>;
          (f1, thrown) = runLoop config env 0 f0
      in ((progress f1)\<lparr>isRunning := False\<rparr>, thrown))"

text \<open>
  \<^verbatim>\<open>static async startRun(preset, config, onProgress) {
    if (this.runningProcess) { throw new Error("A submission run is already in progress"); }
    ...
    try {...} finally {...}
    return progress; }\<close>
  The result is the engine after the call and what the promise settles to: \<open>Inr\<close> the
  progress it resolves with, \<open>Inl\<close> the error it rejects with.
\<close>

definition startRun :: "engine \<Rightarrow> run_config \<Rightarrow> run_env \<Rightarrow> engine \<times> (js_error + submission_progress)" where
  "startRun e config env =
     (case e of
        Some f \<Rightarrow> (e, Inl (JsError ''A submission run is already in progress''))
      | None \<Rightarrow>
          (case runToEnd config env of
             (p, None) \<Rightarrow> (None, Inr p)
           | (p, Some err) \<Rightarrow> (None, Inl err)))"

subsection \<open>What a run records\<close>

text \<open>
  The entry that a failing iteration \<open>i\<close> adds to the errors of the progress, and the entries
  of the first \<open>n\<close> iterations. \<open>atIteration env i p\<close> is what the progress \<open>p\<close> holds when
  \<open>i\<close> iterations have been executed: the index of the last one, one error per failed
  iteration in order, and counters that add up.
\<close>

definition failureRecord :: "run_env \<Rightarrow> nat \<Rightarrow> submission_error list" where
  "failureRecord env i =
     (case submissionResult env i of
        None \<Rightarrow> []
      | Some err \<Rightarrow> [\<lparr>submissionIndex = int i + 1, errorQuestionId = ''form'',
                      message = errorToString err, timestamp = clock env i\<rparr>])"

definition recordedFailures :: "run_env \<Rightarrow> nat \<Rightarrow> submission_error list" where
  "recordedFailures env n = concat (map (failureRecord env) [0..<n])"

definition atIteration :: "run_env \<Rightarrow> nat \<Rightarrow> submission_progress \<Rightarrow> bool" where
  "atIteration env i p =
     (currentSubmissionIndex p = int i
      \<and> runErrors p = recordedFailures env i
      \<and> failedSubmissions p = int (length (runErrors p))
      \<and> completedSubmissions p + failedSubmissions p = int i)"

text \<open>
  The runs in which nothing is thrown out of the loop: stop-on-error is off or no
  submission fails, \<open>stopRun\<close> is not called while a submission that is followed by a
  sleep, or that sleep, is pending, and the progress callback does not throw.
\<close>

definition noFailureUnderStopOnError :: "run_config \<Rightarrow> run_env \<Rightarrow> bool" where
  "noFailureUnderStopOnError config env =
     (\<not> stopOnError config
      \<or> list_all (\<lambda>i. submissionResult env i = None) [0..<nat (submissionCount config)])"

definition noStopBeforeLast :: "run_config \<Rightarrow> run_env \<Rightarrow> bool" where
  "noStopBeforeLast config env =
     list_all (\<lambda>i. \<not> stopDuringSubmission env i \<and> \<not> stopDuringSleep env i)
       [0..<nat (submissionCount config - 1)]"

definition callbackReturns :: "run_config \<Rightarrow> run_env \<Rightarrow> bool" where
  "callbackReturns config env =
     list_all (\<lambda>i. callbackThrows env i = None) [0..<nat (submissionCount config)]"

text \<open>
  The number of iterations such a run executes: all the planned ones, or, when the
  progress callback calls \<open>stopRun\<close>, those up to and including the first in which it does.
\<close>

definition iterationsRun :: "run_config \<Rightarrow> run_env \<Rightarrow> nat" where
  "iterationsRun config env =
     (case find (stopInCallback env) [0..<nat (submissionCount config)] of
        None \<Rightarrow> nat (submissionCount config)
      | Some j \<Rightarrow> Suc j)"

text \<open>
  Iteration \<open>j\<close> runs to its end and the loop goes on: nothing is thrown in it and no
  \<open>stopRun\<close> arrives; and this holds of every iteration before \<open>i0\<close>.
\<close>

definition undisturbed :: "run_config \<Rightarrow> run_env \<Rightarrow> nat \<Rightarrow> bool" where
  "undisturbed config env j =
     ((stopOnError config \<longrightarrow> submissionResult env j = None)
      \<and> \<not> stopDuringSubmission env j \<and> \<not> stopDuringSleep env j
      \<and> \<not> stopInCallback env j \<and> callbackThrows env j = None)"

definition undisturbedUntil :: "run_config \<Rightarrow> run_env \<Rightarrow> nat \<Rightarrow> bool" where
  "undisturbedUntil config env i0 = list_all (undisturbed config env) [0..<i0]"

text \<open>
  Example worlds: one in which \<open>stopRun\<close> is never called and the callback returns, with
  given submission results; submission results in which only the first submission fails;
  a plan of two submissions; a world in which \<open>stopRun\<close> is called during the sleep after
  the first submission; and one in which the progress callback throws at the end of the
  first iteration.
\<close>

definition quietEnv :: "(nat \<Rightarrow> js_error option) \<Rightarrow> run_env" where
  "quietEnv results = \<lparr>startTime = 0, submissionResult = results, clock = (\<lambda>i. 1000 + int i),
     stopDuringSubmission = (\<lambda>i. False), stopDuringSleep = (\<lambda>i. False),
     stopInCallback = (\<lambda>i. False), callbackThrows = (\<lambda>i. None)\<rparr>"

definition firstFails :: "nat \<Rightarrow> js_error option" where
  "firstFails i = (if i = 0 then Some (JsError ''no confirmation'') else None)"

definition twoSubmissions :: "bool \<Rightarrow> run_config" where
  "twoSubmissions stop = \<lparr>submissionCount = 2, delayMin = 0, delayMax = 0, stopOnError = stop\<rparr>"

definition interruptedEnv :: run_env where
  "interruptedEnv = (quietEnv (\<lambda>i. None))\<lparr>stopDuringSleep := (\<lambda>i. i = 0)\<rparr>"

definition throwingCallbackEnv :: run_env where
  "throwingCallbackEnv =
     (quietEnv (\<lambda>i. None))\<lparr>callbackThrows := (\<lambda>i. if i = 0 then Some (JsError ''listener failed'') else None)\<rparr>"

section \<open>Rounding to a double\<close>

lemmas double_eval =
  toDouble_def floorLog2_def bitLength.simps scaleBy_def roundHalfEven_def Let_def

lemma bitLength_bounds: "0 < n \<Longrightarrow> 2 ^ (bitLength n - 1) \<le> n \<and> n < 2 ^ bitLength n"
proof (induction n rule: bitLength.induct)
  case (1 n)
  show ?case
  proof (cases "n div 2 = 0")
    case True
    with 1(2) have "n = 1" by (simp add: div_eq_0_iff)
    then show ?thesis by (simp add: bitLength.simps)
  next
    case False
    then have pos: "0 < n div 2" by simp
    from 1(2) have n0: "n \<noteq> 0" by simp
    from 1(1) [OF n0 pos] have ih: "2 ^ (bitLength (n div 2) - 1) \<le> n div 2" "n div 2 < 2 ^ bitLength (n div 2)"
      by simp_all
    have bl: "bitLength n = Suc (bitLength (n div 2))" using n0 by (subst bitLength.simps) simp
    have bpos: "0 < bitLength (n div 2)" using pos by (subst bitLength.simps) simp
    have "(2::nat) ^ (bitLength n - 1) = 2 * 2 ^ (bitLength (n div 2) - 1)"
      using bl bpos by (cases "bitLength (n div 2)") simp_all
    also have "\<dots> \<le> 2 * (n div 2)" using ih(1) by simp
    also have "\<dots> \<le> n" by simp
    finally have lo: "2 ^ (bitLength n - 1) \<le> n" .
    have "n < 2 * (n div 2) + 2" by presburger
    also have "\<dots> \<le> 2 * 2 ^ bitLength (n div 2)" using ih(2) by simp
    finally have hi: "n < 2 ^ bitLength n" using bl by simp
    from lo hi show ?thesis by simp
  qed
qed

lemma floorLog2_bounds:
  assumes "0 < x"
  shows "2 powi (floorLog2 x) \<le> x \<and> x < 2 powi (floorLog2 x + 1)"
proof (cases "1 \<le> x")
  case True
  define n where "n = nat \<lfloor>x\<rfloor>"
  have npos: "0 < n" using True by (simp add: n_def)
  have fl: "floorLog2 x = int (bitLength n) - 1" using True by (simp add: floorLog2_def n_def)
  from bitLength_bounds [OF npos] have b: "2 ^ (bitLength n - 1) \<le> n" "n < 2 ^ bitLength n" by simp_all
  have bpos: "0 < bitLength n" using npos by (subst bitLength.simps) simp
  have nx: "real n \<le> x" using True by (simp add: n_def)
  have xn: "x < real n + 1" using True by (simp add: n_def)
  have "2 powi (floorLog2 x) = (2::real) ^ (bitLength n - 1)"
    using bpos by (simp add: fl power_int_def of_nat_diff)
  also have "\<dots> \<le> real n" using b(1) by (metis of_nat_le_iff of_nat_numeral of_nat_power)
  finally have lo: "2 powi (floorLog2 x) \<le> x" using nx by simp
  have "real n + 1 \<le> 2 ^ bitLength n" using b(2)
    by (metis Suc_leI of_nat_Suc of_nat_le_iff of_nat_numeral of_nat_power add.commute)
  moreover have "2 powi (floorLog2 x + 1) = (2::real) ^ bitLength n" by (simp add: fl power_int_def)
  ultimately have hi: "x < 2 powi (floorLog2 x + 1)" using xn by simp
  from lo hi show ?thesis by simp
next
  case False
  then have x1: "x < 1" by simp
  define c where "c = \<lceil>1 / x\<rceil>"
  define n where "n = nat (c - 1)"
  have y1: "1 < 1 / x" using assms x1 by simp
  have c2: "2 \<le> c" using y1 unfolding c_def by linarith
  have npos: "0 < n" using c2 by (simp add: n_def)
  have nc: "int n = c - 1" using c2 by (simp add: n_def)
  have fl: "floorLog2 x = - int (bitLength n)" using False by (simp add: floorLog2_def n_def c_def)
  from bitLength_bounds [OF npos] have b: "2 ^ (bitLength n - 1) \<le> n" "n < 2 ^ bitLength n" by simp_all
  have bpos: "0 < bitLength n" using npos by (subst bitLength.simps) simp
  have cle: "1 / x \<le> real_of_int c" unfolding c_def by linarith
  have clt: "real_of_int c - 1 < 1 / x" unfolding c_def by linarith
  have "int n + 1 \<le> 2 ^ bitLength n" using b(2)
    by (metis Suc_leI of_nat_Suc of_nat_le_iff of_nat_numeral of_nat_power add.commute)
  then have ci: "c \<le> 2 ^ bitLength n" using nc by simp
  have "real_of_int c \<le> real_of_int (2 ^ bitLength n)" using ci by (simp only: of_int_le_iff)
  with cle have "1 / x \<le> real_of_int (2 ^ bitLength n)" by linarith
  then have "1 / x \<le> 2 ^ bitLength n" by simp
  then have "1 \<le> x * 2 ^ bitLength n" using assms by (simp add: field_simps)
  then have "inverse ((2::real) ^ bitLength n) \<le> x" by (simp add: field_simps)
  moreover have "2 powi (floorLog2 x) = inverse ((2::real) ^ bitLength n)"
    by (simp add: fl power_int_minus)
  ultimately have lo: "2 powi (floorLog2 x) \<le> x" by (simp only:)
  have "(2::real) ^ (bitLength n - 1) \<le> real n" using b(1)
    by (metis of_nat_le_iff of_nat_numeral of_nat_power)
  also have "real n = real_of_int c - 1" using nc by (metis of_int_of_nat_eq of_int_diff of_int_1)
  also have "\<dots> < 1 / x" by (rule clt)
  finally have "x * 2 ^ (bitLength n - 1) < 1" using assms by (simp add: field_simps)
  then have "x < inverse ((2::real) ^ (bitLength n - 1))" by (simp add: field_simps)
  moreover have "2 powi (floorLog2 x + 1) = inverse ((2::real) ^ (bitLength n - 1))"
  proof -
    have "floorLog2 x + 1 = - int (bitLength n - 1)" using bpos by (simp add: fl of_nat_diff)
    then show ?thesis by (simp add: power_int_minus del: of_nat_diff)
  qed
  ultimately have hi: "x < 2 powi (floorLog2 x + 1)" by (simp only:)
  from lo hi show ?thesis by simp
qed

lemma floorLog2_less:
  assumes "0 < x" "x < 2 ^ k"
  shows "floorLog2 x < int k"
proof (rule ccontr)
  assume "\<not> floorLog2 x < int k"
  then have "int k \<le> floorLog2 x" by simp
  then have "(2::real) powi int k \<le> 2 powi floorLog2 x" by (intro power_int_increasing) simp_all
  moreover have "2 powi floorLog2 x \<le> x" using floorLog2_bounds [OF assms(1)] by simp
  ultimately have "(2::real) ^ k \<le> x" by simp
  with assms(2) show False by simp
qed

lemma floorLog2_ge:
  assumes "0 < x" "2 ^ k \<le> x"
  shows "int k \<le> floorLog2 x"
proof (rule ccontr)
  assume "\<not> int k \<le> floorLog2 x"
  then have "floorLog2 x + 1 \<le> int k" by simp
  then have "(2::real) powi (floorLog2 x + 1) \<le> 2 powi int k" by (intro power_int_increasing) simp_all
  moreover have "x < 2 powi (floorLog2 x + 1)" using floorLog2_bounds [OF assms(1)] by simp
  ultimately have "x < (2::real) ^ k" by simp
  with assms(2) show False by simp
qed

lemma roundHalfEven_of_int: "roundHalfEven (real_of_int j) = j"
  by (simp add: roundHalfEven_def)

lemma roundHalfEven_near: "\<bar>real_of_int (roundHalfEven q) - q\<bar> \<le> 1 / 2"
proof -
  have "real_of_int \<lfloor>q\<rfloor> \<le> q" "q < real_of_int \<lfloor>q\<rfloor> + 1" by linarith+
  then show ?thesis by (auto simp: roundHalfEven_def Let_def)
qed

lemma roundHalfEven_nonneg: "0 \<le> q \<Longrightarrow> 0 \<le> roundHalfEven q"
proof -
  assume "0 \<le> q"
  then have "0 \<le> \<lfloor>q\<rfloor>" by simp
  then show ?thesis by (auto simp: roundHalfEven_def Let_def)
qed

lemma scaleBy_nonpos: "e \<le> 0 \<Longrightarrow> scaleBy x e = x / 2 ^ nat (- e)"
  by (cases "e = 0") (simp_all add: scaleBy_def)

lemma scaleBy_nonneg: "0 \<le> e \<Longrightarrow> scaleBy x e = x * 2 ^ nat e"
  by (simp add: scaleBy_def)

lemma toDouble_minus: "toDouble (- x) = - toDouble x"
  by (simp add: toDouble_def Let_def)

lemma toDouble_pos:
  "0 < x \<Longrightarrow> toDouble x =
     scaleBy (real_of_int (roundHalfEven (scaleBy x (- max (floorLog2 x - 52) (- 1074)))))
       (max (floorLog2 x - 52) (- 1074))"
  by (simp add: toDouble_def Let_def)

lemma toDouble_nonneg: "0 \<le> x \<Longrightarrow> 0 \<le> toDouble x"
proof (cases "x = 0")
  case True
  then show ?thesis by (simp add: toDouble_def)
next
  case False
  assume "0 \<le> x"
  with False have pos: "0 < x" by simp
  let ?e = "max (floorLog2 \<bar>x\<bar> - 52) (- 1074)"
  have "0 \<le> scaleBy \<bar>x\<bar> (- ?e)" by (simp add: scaleBy_def)
  then have "0 \<le> roundHalfEven (scaleBy \<bar>x\<bar> (- ?e))" by (rule roundHalfEven_nonneg)
  then have "0 \<le> scaleBy (real_of_int (roundHalfEven (scaleBy \<bar>x\<bar> (- ?e)))) ?e"
    by (simp add: scaleBy_def)
  then show ?thesis using pos by (simp add: toDouble_def Let_def)
qed

text \<open>A whole number below \<open>2 ^ 53\<close> in magnitude is a double.\<close>

lemma toDouble_of_pos_int:
  assumes "0 < k" "k < 2 ^ 53"
  shows "toDouble (real_of_int k) = real_of_int k"
proof -
  define a where "a = real_of_int k"
  have a1: "1 \<le> a" using assms(1) by (simp add: a_def)
  have apos: "0 < a" using a1 by simp
  have "a < 2 ^ 53" unfolding a_def using assms(2) by (metis of_int_less_iff of_int_numeral of_int_power)
  from floorLog2_less [OF apos this] have hi: "floorLog2 a \<le> 52" by simp
  have "(2::real) ^ 0 \<le> a" using a1 by simp
  from floorLog2_ge [OF apos this] have lo: "0 \<le> floorLog2 a" by simp
  define e where "e = floorLog2 a - 52"
  have emax: "max (floorLog2 a - 52) (- 1074) = e" using lo by (simp add: e_def)
  have e0: "e \<le> 0" using hi by (simp add: e_def)
  have sc: "scaleBy a (- e) = real_of_int (k * 2 ^ nat (- e))"
    using e0 by (simp add: scaleBy_nonneg a_def)
  have m: "roundHalfEven (scaleBy a (- e)) = k * 2 ^ nat (- e)"
    unfolding sc by (rule roundHalfEven_of_int)
  have rt: "scaleBy (real_of_int (k * 2 ^ nat (- e))) e = a"
    using e0 by (simp add: scaleBy_nonpos a_def)
  have "toDouble a = a"
    unfolding toDouble_pos [OF apos] emax m rt ..
  then show ?thesis by (simp only: a_def)
qed

lemma toDouble_of_int:
  assumes "\<bar>k\<bar> < 2 ^ 53"
  shows "toDouble (real_of_int k) = real_of_int k"
proof -
  consider "k = 0" | "0 < k" | "k < 0" by linarith
  then show ?thesis
  proof cases
    case 1
    then show ?thesis by (simp add: toDouble_def)
  next
    case 2
    with assms show ?thesis by (intro toDouble_of_pos_int) simp_all
  next
    case 3
    with assms have "toDouble (real_of_int (- k)) = real_of_int (- k)"
      by (intro toDouble_of_pos_int) simp_all
    then have "toDouble (- real_of_int k) = - real_of_int k" by simp
    then show ?thesis by (simp add: toDouble_minus)
  qed
qed

text \<open>
  A product that is at most \<open>n * (1 - 2 ^ (- 53))\<close> for a whole \<open>n\<close> below \<open>2 ^ 53\<close> is
  rounded to a double below \<open>n\<close>.
\<close>

lemma toDouble_below:
  assumes x0: "0 \<le> x" and n1: "1 \<le> n" and n53: "n < 2 ^ 53"
    and xn: "x \<le> real_of_int n * (1 - 1 / 2 ^ 53)"
  shows "toDouble x < real_of_int n"
proof (cases "x = 0")
  case True
  then show ?thesis using n1 by (simp add: toDouble_def)
next
  case False
  with x0 have pos: "0 < x" by simp
  have npos: "0 < real_of_int n" using n1 by simp
  have xltn: "x < real_of_int n"
  proof -
    have "real_of_int n * (1 - 1 / 2 ^ 53) < real_of_int n * 1"
      using npos by (intro mult_strict_left_mono) simp_all
    with xn show ?thesis by simp
  qed
  have "real_of_int n < 2 ^ 53" using n53 by (metis of_int_less_iff of_int_numeral of_int_power)
  with xltn have "x < 2 ^ 53" by simp
  from floorLog2_less [OF pos this] have hi: "floorLog2 x \<le> 52" by simp
  define e where "e = max (floorLog2 x - 52) (- 1074)"
  have e0: "e \<le> 0" using hi by (simp add: e_def)
  define k where "k = nat (- e)"
  define q where "q = x * 2 ^ k"
  define N where "N = n * 2 ^ k"
  have sc: "scaleBy x (- e) = q" using e0 by (simp add: scaleBy_nonneg q_def k_def)
  have qN: "q \<le> real_of_int N * (1 - 1 / 2 ^ 53)"
  proof -
    have "x * 2 ^ k \<le> (real_of_int n * (1 - 1 / 2 ^ 53)) * 2 ^ k"
      using xn by (intro mult_right_mono) simp_all
    then show ?thesis by (simp add: q_def N_def algebra_simps)
  qed
  have Npos: "0 < real_of_int N" using npos by (simp add: N_def)
  have qltN: "q < real_of_int N"
  proof -
    have "real_of_int N * (1 - 1 / 2 ^ 53) < real_of_int N * 1"
      using Npos by (intro mult_strict_left_mono) simp_all
    with qN show ?thesis by simp
  qed
  have Nbig: "2 ^ 52 < real_of_int N"
  proof (cases "floorLog2 x - 52 \<ge> - 1074")
    case True
    then have e: "e = floorLog2 x - 52" by (simp add: e_def)
    have "2 powi floorLog2 x \<le> x" using floorLog2_bounds [OF pos] by simp
    then have le: "2 powi floorLog2 x * 2 ^ k \<le> x * 2 ^ k"
      by (intro mult_right_mono) simp_all
    have ik: "floorLog2 x + int k = 52" using e0 by (simp add: e k_def)
    have "(2::real) powi floorLog2 x * 2 powi int k = 2 powi (floorLog2 x + int k)"
      by (simp add: power_int_add)
    also have "\<dots> = 2 ^ 52" unfolding ik by simp
    finally have "(2::real) powi floorLog2 x * 2 ^ k = 2 ^ 52" by simp
    with le have "2 ^ 52 \<le> q" by (simp only: q_def)
    with qltN show ?thesis by simp
  next
    case False
    then have e: "e = - 1074" by (simp add: e_def)
    then have k: "k = 1074" by (simp add: k_def)
    have "(2::real) ^ 52 < 2 ^ 1074" by (intro power_strict_increasing) simp_all
    also have "\<dots> \<le> real_of_int n * 2 ^ 1074" using n1 by simp
    finally show ?thesis by (simp add: N_def k)
  qed
  have half: "q < real_of_int N - 1 / 2"
  proof -
    have "1 / 2 < real_of_int N * (1 / 2 ^ 53)" using Nbig by simp
    with qN show ?thesis by (simp add: algebra_simps)
  qed
  define m where "m = roundHalfEven q"
  have "real_of_int m - q \<le> 1 / 2" using roundHalfEven_near [of q] unfolding m_def by linarith
  with half have "real_of_int m < real_of_int N" by simp
  then have mN: "m \<le> N - 1" by simp
  have "toDouble x = scaleBy (real_of_int m) e"
    unfolding toDouble_pos [OF pos] e_def [symmetric] sc m_def ..
  also have "\<dots> = real_of_int m / 2 ^ k" using e0 by (simp add: scaleBy_nonpos k_def)
  also have "\<dots> \<le> real_of_int (N - 1) / 2 ^ k" using mN by (intro divide_right_mono) simp_all
  also have "\<dots> = real_of_int n - 1 / 2 ^ k" by (simp add: N_def field_simps)
  also have "\<dots> < real_of_int n" by simp
  finally show ?thesis .
qed

text \<open>The largest double below 1 is \<open>1 - 2 ^ (- 53)\<close>.\<close>

lemma isDouble_below_one:
  assumes d: "isDouble r" and r0: "0 \<le> r" and r1: "r < 1"
  shows "r \<le> 1 - 1 / 2 ^ 53"
proof (cases "r = 0")
  case True
  then show ?thesis by simp
next
  case False
  with r0 have pos: "0 < r" by simp
  have "r < 2 ^ 0" using r1 by simp
  from floorLog2_less [OF pos this] have L: "floorLog2 r \<le> - 1" by simp
  show ?thesis
  proof (cases "floorLog2 r = - 1")
    case True
    define m where "m = roundHalfEven (scaleBy r 53)"
    have "toDouble r = scaleBy (real_of_int m) (- 53)"
      unfolding toDouble_pos [OF pos] True m_def by simp
    then have r: "r = real_of_int m / 2 ^ 53" using d by (simp add: isDouble_def scaleBy_def)
    with r1 have "real_of_int m < 2 ^ 53" by (simp add: field_simps)
    then have "m < 2 ^ 53" by (metis of_int_less_iff of_int_numeral of_int_power)
    then have "m \<le> 2 ^ 53 - 1" by simp
    then have "real_of_int m \<le> real_of_int (2 ^ 53 - 1)" by (simp only: of_int_le_iff)
    then have "real_of_int m / 2 ^ 53 \<le> real_of_int (2 ^ 53 - 1) / 2 ^ 53"
      by (intro divide_right_mono) simp_all
    then show ?thesis unfolding r by (simp add: field_simps)
  next
    case False
    with L have "floorLog2 r + 1 \<le> - 1" by simp
    then have "(2::real) powi (floorLog2 r + 1) \<le> 2 powi (- 1)" by (intro power_int_increasing) simp_all
    moreover have "r < 2 powi (floorLog2 r + 1)" using floorLog2_bounds [OF pos] by simp
    ultimately have "r < 1 / 2" by (simp add: power_int_minus)
    then show ?thesis by simp
  qed
qed

lemma scaleBy_powi: "scaleBy x e = x * 2 powi e"
  by (simp add: scaleBy_def power_int_def field_simps)

lemma floorLog2_less_powi:
  assumes "0 < x" "x < 2 powi k"
  shows "floorLog2 x < k"
proof (rule ccontr)
  assume "\<not> floorLog2 x < k"
  then have "k \<le> floorLog2 x" by simp
  then have "(2::real) powi k \<le> 2 powi floorLog2 x" by (intro power_int_increasing) simp_all
  moreover have "2 powi floorLog2 x \<le> x" using floorLog2_bounds [OF assms(1)] by simp
  ultimately show False using assms(2) by simp
qed

text \<open>A whole multiple \<open>j * 2 ^ t\<close> of a power of two, with \<open>j\<close> below \<open>2 ^ 53\<close>, is a double.\<close>

lemma toDouble_dyadic_pos:
  assumes j0: "0 < j" and j53: "j < 2 ^ 53" and t: "- 1074 \<le> t"
  shows "toDouble (real_of_int j * 2 powi t) = real_of_int j * 2 powi t"
proof -
  define x where "x = real_of_int j * 2 powi t"
  have pos: "0 < x" using j0 by (simp add: x_def)
  have "real_of_int j < 2 ^ 53" using j53 by (metis of_int_less_iff of_int_numeral of_int_power)
  then have "x < 2 ^ 53 * 2 powi t" unfolding x_def by (intro mult_strict_right_mono) simp_all
  also have "\<dots> = 2 powi (53 + t)" by (simp add: power_int_add)
  finally have "floorLog2 x < 53 + t" using pos by (intro floorLog2_less_powi)
  then have l: "floorLog2 x - 52 \<le> t" by simp
  define e where "e = max (floorLog2 x - 52) (- 1074)"
  have et: "e \<le> t" using l t by (simp add: e_def)
  define k where "k = nat (t - e)"
  have tk: "t - e = int k" using et by (simp add: k_def)
  have "(2::real) powi t * 2 powi (- e) = 2 powi (t - e)" by (simp add: power_int_diff power_int_minus divide_inverse)
  also have "\<dots> = 2 ^ k" unfolding tk by simp
  finally have p: "(2::real) powi t * 2 powi (- e) = 2 ^ k" .
  have sc: "scaleBy x (- e) = real_of_int (j * 2 ^ k)"
    unfolding scaleBy_powi x_def using p by (simp add: mult.assoc)
  have m: "roundHalfEven (scaleBy x (- e)) = j * 2 ^ k"
    unfolding sc by (rule roundHalfEven_of_int)
  have "(2::real) ^ k * 2 powi e = 2 powi (int k + e)" by (simp add: power_int_add)
  also have "int k + e = t" using tk by simp
  finally have q: "(2::real) ^ k * 2 powi e = 2 powi t" .
  have rt: "scaleBy (real_of_int (j * 2 ^ k)) e = x"
    unfolding scaleBy_powi x_def using q by (simp add: mult.assoc)
  have "toDouble x = x"
    unfolding toDouble_pos [OF pos] e_def [symmetric] m rt ..
  then show ?thesis by (simp only: x_def)
qed

lemma toDouble_dyadic:
  assumes "\<bar>j\<bar> \<le> 2 ^ 53" "- 1074 \<le> t"
  shows "toDouble (real_of_int j * 2 powi t) = real_of_int j * 2 powi t"
proof -
  have pos: "toDouble (real_of_int i * 2 powi t) = real_of_int i * 2 powi t"
    if "0 < i" "i \<le> 2 ^ 53" for i
  proof (cases "i = 2 ^ 53")
    case False
    with that show ?thesis by (intro toDouble_dyadic_pos assms(2)) simp_all
  next
    case True
    have "real_of_int i * 2 powi t = real_of_int (2 ^ 52) * 2 powi (t + 1)"
      unfolding True by (simp add: power_int_add)
    moreover have "toDouble (real_of_int (2 ^ 52) * 2 powi (t + 1)) = real_of_int (2 ^ 52) * 2 powi (t + 1)"
      using assms(2) by (intro toDouble_dyadic_pos) simp_all
    ultimately show ?thesis by (simp only:)
  qed
  consider "j = 0" | "0 < j" | "j < 0" by linarith
  then show ?thesis
  proof cases
    case 1
    then show ?thesis by (simp add: toDouble_def)
  next
    case 2
    with assms(1) show ?thesis by (intro pos) simp_all
  next
    case 3
    with assms(1) have "toDouble (real_of_int (- j) * 2 powi t) = real_of_int (- j) * 2 powi t"
      by (intro pos) simp_all
    then have "toDouble (- (real_of_int j * 2 powi t)) = - (real_of_int j * 2 powi t)" by simp
    then show ?thesis by (simp add: toDouble_minus)
  qed
qed

text \<open>The result of rounding is a double.\<close>

lemma toDouble_form:
  assumes pos: "0 < x"
  shows "\<exists>m t. toDouble x = real_of_int m * 2 powi t \<and> 0 \<le> m \<and> m \<le> 2 ^ 53 \<and> - 1074 \<le> t
               \<and> t = max (floorLog2 x - 52) (- 1074)"
proof -
  define e where "e = max (floorLog2 x - 52) (- 1074)"
  define q where "q = scaleBy x (- e)"
  define m where "m = roundHalfEven q"
  have q0: "0 \<le> q" using pos by (simp add: q_def scaleBy_def)
  have m0: "0 \<le> m" unfolding m_def by (rule roundHalfEven_nonneg [OF q0])
  have "x < 2 powi (floorLog2 x + 1)" using floorLog2_bounds [OF pos] by simp
  then have "x * 2 powi (- e) < 2 powi (floorLog2 x + 1) * 2 powi (- e)"
    by (intro mult_strict_right_mono) simp_all
  also have "\<dots> = 2 powi (floorLog2 x + 1 - e)"
    by (simp add: power_int_diff power_int_minus divide_inverse)
  also have "\<dots> \<le> 2 powi 53" by (intro power_int_increasing) (simp_all add: e_def)
  finally have "q < 2 ^ 53" by (simp add: q_def scaleBy_powi)
  moreover have "real_of_int m - q \<le> 1 / 2" using roundHalfEven_near [of q] unfolding m_def by linarith
  ultimately have "real_of_int m < 2 ^ 53 + 1" by linarith
  then have "real_of_int m < real_of_int (2 ^ 53 + 1)" by simp
  then have "m < 2 ^ 53 + 1" by (simp only: of_int_less_iff)
  then have m53: "m \<le> 2 ^ 53" by simp
  have "toDouble x = real_of_int m * 2 powi e"
    unfolding toDouble_pos [OF pos] e_def [symmetric] q_def [symmetric] m_def [symmetric]
    by (rule scaleBy_powi)
  moreover have "- 1074 \<le> e" by (simp add: e_def)
  ultimately show ?thesis using m0 m53 e_def by blast
qed

lemma toDouble_idem: "toDouble (toDouble x) = toDouble x"
proof -
  have pos: "toDouble (toDouble y) = toDouble y" if y: "0 < y" for y
  proof -
    obtain m t where f: "toDouble y = real_of_int m * 2 powi t" "0 \<le> m" "m \<le> 2 ^ 53" "- 1074 \<le> t"
      using toDouble_form [OF y] by blast
    have "\<bar>m\<bar> \<le> 2 ^ 53" using f(2,3) by simp
    from toDouble_dyadic [OF this f(4)] show ?thesis by (simp only: f(1))
  qed
  consider "x = 0" | "0 < x" | "x < 0" by linarith
  then show ?thesis
  proof cases
    case 1
    then show ?thesis by (simp add: toDouble_def)
  next
    case 2
    then show ?thesis by (rule pos)
  next
    case 3
    then have "toDouble (toDouble (- x)) = toDouble (- x)" by (intro pos) simp
    then show ?thesis by (simp add: toDouble_minus)
  qed
qed

lemma isDouble_toDouble: "isDouble (toDouble x)"
  by (simp add: isDouble_def toDouble_idem)

lemma toDouble_ge_one:
  assumes "1 \<le> x"
  shows "1 \<le> toDouble x"
proof -
  have pos: "0 < x" using assms by simp
  obtain m t where f: "toDouble x = real_of_int m * 2 powi t"
    and t: "t = max (floorLog2 x - 52) (- 1074)"
    using toDouble_form [OF pos] by blast
  have "(2::real) ^ 0 \<le> x" using assms by simp
  from floorLog2_ge [OF pos this] have l0: "0 \<le> floorLog2 x" by simp
  then have te: "t = floorLog2 x - 52" using t by simp
  have "2 powi floorLog2 x \<le> x" using floorLog2_bounds [OF pos] by simp
  then have "2 powi floorLog2 x * 2 powi (- t) \<le> x * 2 powi (- t)"
    by (intro mult_right_mono) simp_all
  moreover have "(2::real) powi floorLog2 x * 2 powi (- t) = 2 powi (floorLog2 x - t)"
    by (simp add: power_int_diff power_int_minus divide_inverse)
  moreover have "floorLog2 x - t = 52" using te by simp
  ultimately have q52: "2 ^ 52 \<le> x * 2 powi (- t)" by simp
  have m: "m = roundHalfEven (scaleBy x (- t))"
  proof -
    have "toDouble x = real_of_int (roundHalfEven (scaleBy x (- t))) * 2 powi t"
      unfolding toDouble_pos [OF pos] t [symmetric] by (rule scaleBy_powi)
    with f have "real_of_int m * 2 powi t = real_of_int (roundHalfEven (scaleBy x (- t))) * 2 powi t"
      by simp
    then show ?thesis by simp
  qed
  have "x * 2 powi (- t) - real_of_int m \<le> 1 / 2"
    using roundHalfEven_near [of "scaleBy x (- t)"] unfolding m scaleBy_powi by linarith
  with q52 have "2 ^ 52 - 1 / 2 \<le> real_of_int m" by linarith
  then have "real_of_int (2 ^ 52 - 1) < real_of_int m" by simp
  then have "2 ^ 52 - 1 < m" by (simp only: of_int_less_iff)
  then have "2 ^ 52 \<le> m" by simp
  then have "real_of_int (2 ^ 52) \<le> real_of_int m" by (simp only: of_int_le_iff)
  then have "real_of_int (2 ^ 52) * 2 powi t \<le> real_of_int m * 2 powi t"
    by (intro mult_right_mono) simp_all
  moreover have "real_of_int (2 ^ 52) * 2 powi t = 2 powi (52 + t)" by (simp add: power_int_add)
  moreover have "(1::real) \<le> 2 powi (52 + t)"
    using l0 te by (intro one_le_power_int) simp_all
  ultimately show ?thesis unfolding f by linarith
qed

section \<open>Properties of the value generators\<close>



subsection \<open>Range generation\<close>

lemma generateRangeNumber_integers:
  assumes le: "mn \<le> mx" and lo: "\<bar>mn\<bar> < 2 ^ 53" and hi: "\<bar>mx\<bar> < 2 ^ 53"
    and span: "mx - mn + 1 < 2 ^ 53"
    and d: "isDouble r" and r0: "0 \<le> r" and r1: "r < 1"
  shows "generateRangeNumber (real_of_int mn) (real_of_int mx) r
         = real_of_int (\<lfloor>fmul r (real_of_int (mx - mn + 1))\<rfloor> + mn)"
    and "mn \<le> \<lfloor>fmul r (real_of_int (mx - mn + 1))\<rfloor> + mn"
    and "\<lfloor>fmul r (real_of_int (mx - mn + 1))\<rfloor> + mn \<le> mx"
proof -
  define n where "n = mx - mn + 1"
  have n1: "1 \<le> n" using le by (simp add: n_def)
  have n53: "n < 2 ^ 53" using span by (simp add: n_def)
  have s: "fsub (real_of_int mx) (real_of_int mn) = real_of_int (mx - mn)"
  proof -
    have "\<bar>mx - mn\<bar> < 2 ^ 53" using le span by simp
    from toDouble_of_int [OF this] show ?thesis by (simp add: fsub_def)
  qed
  have a: "fadd (real_of_int (mx - mn)) 1 = real_of_int n"
  proof -
    have "\<bar>n\<bar> < 2 ^ 53" using n1 n53 by simp
    from toDouble_of_int [OF this] show ?thesis by (simp add: fadd_def n_def)
  qed
  define p where "p = fmul r (real_of_int n)"
  have rmax: "r \<le> 1 - 1 / 2 ^ 53" by (rule isDouble_below_one [OF d r0 r1])
  have npos: "0 \<le> real_of_int n" using n1 by simp
  have prod: "r * real_of_int n \<le> real_of_int n * (1 - 1 / 2 ^ 53)"
    using mult_right_mono [OF rmax npos] by (simp add: mult.commute)
  have prod0: "0 \<le> r * real_of_int n" using r0 npos by simp
  have p0: "0 \<le> p" unfolding p_def fmul_def by (rule toDouble_nonneg [OF prod0])
  have pn: "p < real_of_int n" unfolding p_def fmul_def by (rule toDouble_below [OF prod0 n1 n53 prod])
  have k0: "0 \<le> \<lfloor>p\<rfloor>" using p0 by simp
  have kn: "\<lfloor>p\<rfloor> < n" using pn by (simp add: floor_less_iff)
  have lw: "mn \<le> \<lfloor>p\<rfloor> + mn" using k0 by linarith
  have up: "\<lfloor>p\<rfloor> + mn \<le> mx" using kn unfolding n_def by linarith
  show "mn \<le> \<lfloor>fmul r (real_of_int (mx - mn + 1))\<rfloor> + mn"
    using lw by (simp only: p_def n_def)
  show "\<lfloor>fmul r (real_of_int (mx - mn + 1))\<rfloor> + mn \<le> mx"
    using up by (simp only: p_def n_def)
  have "\<bar>\<lfloor>p\<rfloor> + mn\<bar> < 2 ^ 53"
    using lw up lo hi by linarith
  from toDouble_of_int [OF this]
  have f: "fadd (real_of_int \<lfloor>p\<rfloor>) (real_of_int mn) = real_of_int (\<lfloor>p\<rfloor> + mn)"
    by (simp add: fadd_def)
  have "generateRangeNumber (real_of_int mn) (real_of_int mx) r = real_of_int (\<lfloor>p\<rfloor> + mn)"
    unfolding generateRangeNumber_def s a p_def [symmetric] by (rule f)
  then show "generateRangeNumber (real_of_int mn) (real_of_int mx) r
         = real_of_int (\<lfloor>fmul r (real_of_int (mx - mn + 1))\<rfloor> + mn)"
    by (simp only: p_def n_def)
qed

text \<open>
  C5, as the code has it. For whole bounds \<open>mn \<le> mx\<close> below \<open>2 ^ 53\<close> in magnitude that
  span fewer than \<open>2 ^ 53\<close> values, and a draw that is a double in \<open>[0, 1)\<close>, range
  generation returns the floor of the product of the draw and \<open>mx - mn + 1\<close>, the product
  rounded to a double as the code computes it, plus \<open>mn\<close>. The result is a whole number in
  \<open>[mn, mx]\<close>, and it is \<open>mn\<close> when \<open>mn = mx\<close>.
\<close>

theorem generateRangeNumber_in_range:
  assumes "mn \<le> mx" "\<bar>mn\<bar> < 2 ^ 53" "\<bar>mx\<bar> < 2 ^ 53" "mx - mn + 1 < 2 ^ 53"
    and "isDouble r" "0 \<le> r" "r < 1"
  shows "generateRangeNumber (real_of_int mn) (real_of_int mx) r
           = real_of_int (\<lfloor>fmul r (real_of_int (mx - mn + 1))\<rfloor> + mn)
         \<and> mn \<le> \<lfloor>fmul r (real_of_int (mx - mn + 1))\<rfloor> + mn
         \<and> \<lfloor>fmul r (real_of_int (mx - mn + 1))\<rfloor> + mn \<le> mx
         \<and> (mn = mx \<longrightarrow> generateRangeNumber (real_of_int mn) (real_of_int mx) r = real_of_int mn)"
proof -
  note g = generateRangeNumber_integers [OF assms]
  have "generateRangeNumber (real_of_int mn) (real_of_int mx) r = real_of_int mn" if "mn = mx"
  proof -
    have "\<lfloor>fmul r (real_of_int (mx - mn + 1))\<rfloor> + mn = mn"
      using g(2) g(3) that by linarith
    with g(1) show ?thesis by (simp only:)
  qed
  with g show ?thesis by blast
qed

text \<open>
  With fractional bounds the result need not be whole nor within the bounds: between
  \<open>0.5\<close> and \<open>0.7\<close>, the draw \<open>0.9\<close> gives \<open>1.5\<close>. The difference \<open>0.7 - 0.5\<close> plus 1 is
  about \<open>1.2\<close>, its product with \<open>0.9\<close> about \<open>1.08\<close>, whose floor is 1, and \<open>1 + 0.5\<close> is
  \<open>1.5\<close>.
\<close>

theorem generateRange_fractional_bounds_counterexample:
  "1 / 2 \<le> toDouble (7 / 10)
   \<and> 0 \<le> toDouble (9 / 10) \<and> toDouble (9 / 10) < 1
   \<and> generateRangeNumber (1 / 2) (toDouble (7 / 10)) (toDouble (9 / 10)) = 3 / 2
   \<and> toDouble (7 / 10) < 3 / 2
   \<and> real_of_int \<lfloor>3 / 2 :: real\<rfloor> \<noteq> 3 / 2"
  by (simp add: generateRangeNumber_def fadd_def fsub_def fmul_def double_eval)

theorem generateRangeNumber_in_range_witness:
  "isDouble (3 / 4)
   \<and> generateRangeNumber (- 3) 2 (3 / 4) = 1
   \<and> generateRangeNumber (- 7) (- 7) (3 / 4) = - 7"
proof -
  have d: "isDouble (3 / 4)" by (simp add: isDouble_def double_eval)
  have r: "(0::real) \<le> 3 / 4" "(3 / 4 :: real) < 1" by simp_all
  have a: "(- 3 :: int) \<le> 2" "\<bar>- 3 :: int\<bar> < 2 ^ 53" "\<bar>2 :: int\<bar> < 2 ^ 53"
    "(2::int) - (- 3) + 1 < 2 ^ 53" by simp_all
  have b: "(- 7 :: int) \<le> - 7" "\<bar>- 7 :: int\<bar> < 2 ^ 53" "(- 7 :: int) - (- 7) + 1 < 2 ^ 53"
    by simp_all
  note m = generateRangeNumber_in_range [OF a d r, THEN conjunct1]
  note e = generateRangeNumber_in_range [OF b(1) b(2) b(2) b(3) d r,
      THEN conjunct2, THEN conjunct2, THEN conjunct2]
  have v: "\<lfloor>fmul (3 / 4) (real_of_int (2 - (- 3) + 1))\<rfloor> + (- 3) = (1::int)"
    by (simp add: fmul_def double_eval)
  have 1: "generateRangeNumber (- 3) 2 (3 / 4) = 1"
    using m unfolding v by simp
  have 2: "generateRangeNumber (- 7) (- 7) (3 / 4) = - 7"
    using e by simp
  show ?thesis using d 1 2 by blast
qed



section \<open>Pattern synthesis: quantifiers\<close>




























section \<open>Properties of the default probabilities\<close>

lemma remainder_below_count:
  fixes n :: int assumes "0 < n"
  shows "100 - (100 div n) * n = 100 mod n" and "0 \<le> 100 mod n" and "100 mod n < n"
  using assms by (simp_all add: minus_div_mult_eq_mod)

lemma incrementFirst_replicate:
  assumes "i \<le> nat rem" "nat rem \<le> n"
  shows "incrementFirst i rem (replicate i (b + 1) @ replicate (n - i) b)
         = replicate (nat rem) (b + 1) @ replicate (n - nat rem) b"
  using assms
proof (induction "nat rem - i" arbitrary: i)
  case 0
  then have "i = nat rem" by simp
  then have nlt: "\<not> int i < rem" by simp
  show ?case
    by (subst incrementFirst.simps) (simp add: nlt \<open>i = nat rem\<close>)
next
  case (Suc d)
  then have lt: "int i < rem" and iln: "i < n" by linarith+
  have upd: "(replicate i (b + 1) @ replicate (n - i) b)[i := (replicate i (b + 1) @ replicate (n - i) b) ! i + 1]
      = replicate (Suc i) (b + 1) @ replicate (n - Suc i) b"
  proof -
    obtain m where m: "n - i = Suc m" using iln by (metis Suc_diff_Suc)
    then have m': "n - Suc i = m" by simp
    show ?thesis unfolding m m'
      by (simp add: list_update_append nth_append replicate_append_same)
  qed
  have "incrementFirst i rem (replicate i (b + 1) @ replicate (n - i) b)
      = incrementFirst (Suc i) rem (replicate (Suc i) (b + 1) @ replicate (n - Suc i) b)"
    using lt upd by (subst incrementFirst.simps) simp
  also have "\<dots> = replicate (nat rem) (b + 1) @ replicate (n - nat rem) b"
    using Suc by (intro Suc.hyps(1)) linarith+
  finally show ?case .
qed

lemma defaultProbabilities_eq:
  assumes "1 \<le> n"
  shows "defaultProbabilities n
         = replicate (nat (100 mod n)) (100 div n + 1) @ replicate (nat n - nat (100 mod n)) (100 div n)"
proof -
  have n: "0 < n" using assms by simp
  have r: "nat (100 mod n) \<le> nat n" using remainder_below_count(2,3) [OF n] by linarith
  have "defaultProbabilities n = incrementFirst 0 (100 mod n) (replicate 0 (100 div n + 1) @ replicate (nat n - 0) (100 div n))"
    using n remainder_below_count(1) [OF n] by (simp add: defaultProbabilities_def Let_def)
  also have "\<dots> = replicate (nat (100 mod n)) (100 div n + 1) @ replicate (nat n - nat (100 mod n)) (100 div n)"
    using r by (intro incrementFirst_replicate) simp_all
  finally show ?thesis .
qed

lemma sum_list_default:
  assumes "1 \<le> n"
  shows "sum_list (defaultProbabilities n) = 100"
proof -
  have n: "0 < n" using assms by simp
  have r: "0 \<le> 100 mod n" "100 mod n < n" using remainder_below_count(2,3) [OF n] by simp_all
  have "sum_list (defaultProbabilities n)
        = (100 mod n) * (100 div n + 1) + (n - 100 mod n) * (100 div n)"
    using r by (simp add: defaultProbabilities_eq [OF assms] sum_list_replicate nat_diff_distrib' of_nat_diff)
  also have "\<dots> = n * (100 div n) + 100 mod n" by (simp add: algebra_simps)
  also have "\<dots> = 100" by simp
  finally show ?thesis .
qed

lemma withinTolerance_100: "withinTolerance 100"
  by (simp add: withinTolerance_def fsub_def double_eval)

text \<open>Whole percentages add up exactly: every partial sum is a double.\<close>

lemma defaultInputs_fold:
  assumes "0 \<le> a" "\<forall>p \<in> set ps. 0 \<le> p" "a + sum_list ps < 2 ^ 53"
  shows "foldl (\<lambda>acc input. fadd acc (nanAsZero (parsedValue input))) (real_of_int a)
           (map (defaultInput e) ps)
         = real_of_int (a + sum_list ps)"
  using assms
proof (induction ps arbitrary: a)
  case Nil
  then show ?case by simp
next
  case (Cons p ps)
  have p0: "0 \<le> p" and rest: "\<forall>p \<in> set ps. 0 \<le> p" using Cons.prems(2) by simp_all
  have s0: "0 \<le> sum_list ps" using rest by (simp add: sum_list_nonneg)
  have "\<bar>a + p\<bar> < 2 ^ 53" using Cons.prems(1,3) p0 s0 by simp
  from toDouble_of_int [OF this]
  have step: "fadd (real_of_int a) (nanAsZero (parsedValue (defaultInput e p))) = real_of_int (a + p)"
    by (simp add: fadd_def defaultInput_def nanAsZero_def)
  have "foldl (\<lambda>acc input. fadd acc (nanAsZero (parsedValue input))) (real_of_int (a + p))
           (map (defaultInput e) ps)
        = real_of_int ((a + p) + sum_list ps)"
    using Cons.prems(1,3) p0 rest by (intro Cons.IH) simp_all
  then show ?case by (simp add: step add.assoc)
qed

lemma defaultInputs_total:
  assumes "\<forall>p \<in> set ps. 0 \<le> p" "sum_list ps < 2 ^ 53"
  shows "inputsTotal (map (defaultInput e) ps) = real_of_int (sum_list ps)"
  using defaultInputs_fold [of 0 ps e] assms by (simp add: inputsTotal_def)

lemma validate_defaults:
  assumes "1 \<le> n" "probInputs doc = map (defaultInput e) (defaultProbabilities n)"
  shows "fst (validateProbabilities doc e True ec False)"
proof -
  have n: "0 < n" using assms(1) by simp
  have r: "0 \<le> 100 mod n" "100 mod n < n" using remainder_below_count(2,3) [OF n] by simp_all
  have d: "0 \<le> 100 div n" using n by (simp add: pos_imp_zdiv_nonneg_iff)
  have ne: "defaultProbabilities n \<noteq> []"
    using r n by (auto simp: defaultProbabilities_eq [OF assms(1)])
  have nonneg: "\<forall>p \<in> set (defaultProbabilities n). 0 \<le> p"
    using d by (auto simp: defaultProbabilities_eq [OF assms(1)])
  have f: "filter (\<lambda>input. questionId input = e) (probInputs doc) = probInputs doc"
    by (simp add: assms(2) defaultInput_def)
  have g: "\<not> list_ex (\<lambda>input. rowIdx input \<noteq> None) (probInputs doc)"
    by (simp add: assms(2) list_ex_iff defaultInput_def)
  have "inputsTotal (probInputs doc) = real_of_int (sum_list (defaultProbabilities n))"
    unfolding assms(2) using nonneg by (intro defaultInputs_total) (simp_all add: sum_list_default [OF assms(1)])
  then have t: "foldl (\<lambda>acc input. fadd acc (nanAsZero (parsedValue input))) 0 (probInputs doc) = 100"
    by (simp add: inputsTotal_def sum_list_default [OF assms(1)])
  have len: "length (probInputs doc) \<noteq> 0" using ne by (simp add: assms(2))
  show ?thesis
    using len g by (simp add: validateProbabilities_def f t Let_def withinTolerance_100)
qed

text \<open>
  C10. For every option count \<open>n \<ge> 1\<close> the default assignment has \<open>n\<close> entries, all
  non-negative, that sum to exactly 100: the first \<open>100 mod n\<close> are \<open>100 div n + 1\<close> and the
  others \<open>100 div n\<close>. A checked field whose inputs hold these defaults passes the
  probability-sum validation.
\<close>

theorem defaultProbabilities_sum_100:
  assumes "1 \<le> n"
  shows "length (defaultProbabilities n) = nat n
         \<and> (\<forall>p \<in> set (defaultProbabilities n). 0 \<le> p)
         \<and> sum_list (defaultProbabilities n) = 100
         \<and> defaultProbabilities n
             = replicate (nat (100 mod n)) (100 div n + 1) @ replicate (nat n - nat (100 mod n)) (100 div n)
         \<and> (probInputs doc = map (defaultInput e) (defaultProbabilities n)
              \<longrightarrow> fst (validateProbabilities doc e True ec False))"
proof -
  have n: "0 < n" using assms by simp
  have r: "0 \<le> 100 mod n" "100 mod n < n" using remainder_below_count(2,3) [OF n] by simp_all
  have d: "0 \<le> 100 div n" using n by (simp add: pos_imp_zdiv_nonneg_iff)
  have len: "length (defaultProbabilities n) = nat n"
    using r by (simp add: defaultProbabilities_eq [OF assms])
  have nonneg: "\<forall>p \<in> set (defaultProbabilities n). 0 \<le> p"
    using d by (auto simp: defaultProbabilities_eq [OF assms])
  have v: "probInputs doc = map (defaultInput e) (defaultProbabilities n)
              \<longrightarrow> fst (validateProbabilities doc e True ec False)"
    using validate_defaults [OF assms] by blast
  show ?thesis
    using len nonneg sum_list_default [OF assms] defaultProbabilities_eq [OF assms] v by blast
qed

theorem defaultProbabilities_sum_100_witness:
  "(1::int) \<le> 3 \<and> defaultProbabilities 3 = [34, 33, 33] \<and> sum_list (defaultProbabilities 3) = 100
   \<and> fst (validateProbabilities
        \<lparr>probInputs = map (defaultInput ''q1'') (defaultProbabilities 3),
         checkboxes = (\<lambda>e. None), errorContainers = (\<lambda>e. None)\<rparr>
        ''q1'' True \<lparr>displayStyle = DisplayNone, textContent = NoText\<rparr> False)"
proof -
  have h: "(1::int) \<le> 3" by simp
  note t = defaultProbabilities_sum_100 [OF h, where e = "''q1''"
      and doc = "\<lparr>probInputs = map (defaultInput ''q1'') (defaultProbabilities 3),
         checkboxes = (\<lambda>e. None), errorContainers = (\<lambda>e. None)\<rparr>"
      and ec = "\<lparr>displayStyle = DisplayNone, textContent = NoText\<rparr>"]
  have e: "defaultProbabilities 3
        = replicate (nat (100 mod 3)) (100 div 3 + 1) @ replicate (nat 3 - nat (100 mod 3)) (100 div 3)"
    using t by blast
  have s: "sum_list (defaultProbabilities 3) = 100"
    using t by blast
  have v: "replicate (nat (100 mod 3)) (100 div 3 + 1) @ replicate (nat 3 - nat (100 mod 3)) (100 div 3)
           = [34, 33, 33::int]"
    by (simp add: numeral_2_eq_2)
  have w: "fst (validateProbabilities
        \<lparr>probInputs = map (defaultInput ''q1'') (defaultProbabilities 3),
         checkboxes = (\<lambda>e. None), errorContainers = (\<lambda>e. None)\<rparr>
        ''q1'' True \<lparr>displayStyle = DisplayNone, textContent = NoText\<rparr> False)"
  proof -
    have "probInputs \<lparr>probInputs = map (defaultInput ''q1'') (defaultProbabilities 3),
         checkboxes = (\<lambda>e. None), errorContainers = (\<lambda>e. None)\<rparr>
         = map (defaultInput ''q1'') (defaultProbabilities 3)" by simp
    with t show ?thesis by blast
  qed
  show ?thesis using h e s v w by simp
qed

section \<open>Probability validation gates the submit handler\<close>

text \<open>
  On a double, the test of the code is the comparison on the reals: near 100 the
  difference of two doubles is a double, and no multiple of \<open>2 ^ (- 46)\<close> lies between
  one tenth and the double nearest to it.
\<close>

lemma withinTolerance_exact:
  assumes d: "isDouble s"
  shows "withinTolerance s = nearHundred s"
proof (cases "\<bar>s - 100\<bar> < 1")
  case False
  then have far: "1 \<le> \<bar>s - 100\<bar>" by simp
  have "1 \<le> \<bar>toDouble (s - 100)\<bar>"
  proof (cases "0 \<le> s - 100")
    case True
    with far have "1 \<le> s - 100" by simp
    from toDouble_ge_one [OF this] show ?thesis by simp
  next
    case False
    with far have "1 \<le> - (s - 100)" by simp
    from toDouble_ge_one [OF this] have "1 \<le> - toDouble (s - 100)" by (simp only: toDouble_minus)
    then show ?thesis by linarith
  qed
  moreover have "toDouble (1 / 10) < 1" by (simp add: double_eval)
  ultimately have "\<not> withinTolerance s" by (simp add: withinTolerance_def fsub_def)
  moreover have "\<not> nearHundred s" using far by (simp add: nearHundred_def)
  ultimately show ?thesis by simp
next
  case True
  then have s: "99 < s" "s < 101" by (simp_all add: abs_less_iff)
  have pos: "0 < s" using s by simp
  have "(2::real) ^ 6 \<le> s" using s by simp
  from floorLog2_ge [OF pos this] have "6 \<le> floorLog2 s" by simp
  moreover have "s < 2 ^ 7" using s by simp
  from floorLog2_less [OF pos this] have "floorLog2 s < 7" by simp
  ultimately have l: "floorLog2 s = 6" by simp
  define m where "m = roundHalfEven (scaleBy s 46)"
  have "toDouble s = scaleBy (real_of_int m) (- 46)"
    unfolding toDouble_pos [OF pos] l m_def by simp
  then have sm: "s = real_of_int m / 2 ^ 46" using d by (simp add: isDouble_def scaleBy_def)
  define j where "j = m - 100 * 2 ^ 46"
  have sj: "s - 100 = real_of_int j / 2 ^ 46" by (simp add: sm j_def field_simps)
  have "\<bar>real_of_int j\<bar> < 2 ^ 46" using True unfolding sj by (simp add: field_simps)
  then have "real_of_int \<bar>j\<bar> < real_of_int (2 ^ 46)" by simp
  then have j46: "\<bar>j\<bar> < 2 ^ 46" by (simp only: of_int_less_iff)
  then have "\<bar>j\<bar> \<le> 2 ^ 53" by simp
  from toDouble_dyadic [OF this, of "- 46"]
  have "toDouble (real_of_int j * 2 powi (- 46)) = real_of_int j * 2 powi (- 46)" by simp
  moreover have "real_of_int j * 2 powi (- 46) = real_of_int j / 2 ^ 46"
    by (simp add: power_int_minus field_simps)
  ultimately have "toDouble (real_of_int j / 2 ^ 46) = real_of_int j / 2 ^ 46" by (simp only:)
  then have ex: "fsub s 100 = real_of_int j / 2 ^ 46" unfolding fsub_def sj .
  have t: "toDouble (1 / 10) = 3602879701896397 / 2 ^ 55" by (simp add: double_eval)
  have a: "(\<bar>real_of_int j / 2 ^ 46\<bar> \<le> 3602879701896397 / 2 ^ 55) = (\<bar>j\<bar> \<le> 7036874417766)"
  proof -
    have "(\<bar>real_of_int j / 2 ^ 46\<bar> \<le> 3602879701896397 / 2 ^ 55)
          = (real_of_int (512 * \<bar>j\<bar>) \<le> real_of_int 3602879701896397)"
      by (auto simp: field_simps abs_if)
    also have "\<dots> = (512 * \<bar>j\<bar> \<le> 3602879701896397)" by (simp only: of_int_le_iff)
    also have "\<dots> = (\<bar>j\<bar> \<le> 7036874417766)" by linarith
    finally show ?thesis .
  qed
  have b: "(\<bar>real_of_int j / 2 ^ 46\<bar> \<le> 1 / 10) = (\<bar>j\<bar> \<le> 7036874417766)"
  proof -
    have "(\<bar>real_of_int j / 2 ^ 46\<bar> \<le> 1 / 10)
          = (real_of_int (10 * \<bar>j\<bar>) \<le> real_of_int 70368744177664)"
      by (auto simp: field_simps abs_if)
    also have "\<dots> = (10 * \<bar>j\<bar> \<le> 70368744177664)" by (simp only: of_int_le_iff)
    also have "\<dots> = (\<bar>j\<bar> \<le> 7036874417766)" by linarith
    finally show ?thesis .
  qed
  show ?thesis
    unfolding withinTolerance_def nearHundred_def ex t sj a b ..
qed

lemma isDouble_inputsTotal: "isDouble (inputsTotal inputs)"
proof (induction inputs rule: rev_induct)
  case Nil
  show ?case by (simp add: inputsTotal_def isDouble_def toDouble_def)
next
  case (snoc input inputs)
  show ?case by (simp add: inputsTotal_def fadd_def isDouble_toDouble)
qed

lemma withinTolerance_inputsTotal: "withinTolerance (inputsTotal inputs) = nearHundred (inputsTotal inputs)"
  by (rule withinTolerance_exact [OF isDouble_inputsTotal])

lemma withinTolerance_rowTotal: "withinTolerance (rowTotal inputs k) = nearHundred (rowTotal inputs k)"
  unfolding rowTotal_def by (rule withinTolerance_inputsTotal)

lemma map_of_mapSet: "map_of (mapSet k v xs) = (map_of xs)(k \<mapsto> v)"
  by (induction xs) (auto simp: fun_eq_iff)

lemma keys_mapSet:
  "map fst (mapSet k v xs) = (if k \<in> fst ` set xs then map fst xs else map fst xs @ [k])"
proof (induction xs)
  case Nil
  show ?case by simp
next
  case (Cons p xs)
  obtain k' v' where p: "p = (k', v')" by (cases p)
  show ?case
  proof (cases "k' = k")
    case True
    then show ?thesis by (simp add: p)
  next
    case False
    then show ?thesis using Cons.IH by (simp add: p)
  qed
qed

lemma map_of_addToRow:
  "map_of (addToRow rs input) k
   = (if k = rowKeyOf input
      then Some (fadd (case map_of rs k of None \<Rightarrow> 0 | Some c \<Rightarrow> c) (nanAsZero (parsedValue input)))
      else map_of rs k)"
  by (simp add: addToRow_def Let_def map_of_mapSet)

lemma keys_addToRow: "fst ` set (addToRow rs input) = insert (rowKeyOf input) (fst ` set rs)"
proof -
  have "set (map fst (addToRow rs input)) = insert (rowKeyOf input) (set (map fst rs))"
    unfolding addToRow_def Let_def keys_mapSet by auto
  then show ?thesis by simp
qed

lemma distinct_addToRow: "distinct (map fst rs) \<Longrightarrow> distinct (map fst (addToRow rs input))"
  unfolding addToRow_def Let_def keys_mapSet by auto

lemma rowSums_distinct:
  "distinct (map fst rs) \<Longrightarrow> distinct (map fst (foldl addToRow rs inputs))"
  by (induction inputs arbitrary: rs) (simp_all add: distinct_addToRow)

lemma rowSums_keys_from:
  "fst ` set (foldl addToRow rs inputs) = fst ` set rs \<union> rowKeyOf ` set inputs"
  by (induction inputs arbitrary: rs) (simp_all add: keys_addToRow)

lemma rowSums_value_from:
  "(case map_of (foldl addToRow rs inputs) k of None \<Rightarrow> 0 | Some c \<Rightarrow> c)
   = foldl (\<lambda>acc input. fadd acc (nanAsZero (parsedValue input)))
       (case map_of rs k of None \<Rightarrow> 0 | Some c \<Rightarrow> c)
       (filter (\<lambda>input. rowKeyOf input = k) inputs)"
proof (induction inputs arbitrary: rs)
  case Nil
  show ?case by simp
next
  case (Cons input inputs)
  show ?case
    by (simp add: Cons.IH map_of_addToRow)
qed

lemma rowSums_entries:
  assumes "(k, s) \<in> set (foldl addToRow [] inputs)"
  shows "k \<in> rowKeyOf ` set inputs \<and> s = rowTotal inputs k"
proof -
  have d: "distinct (map fst (foldl addToRow [] inputs))"
    by (rule rowSums_distinct) simp
  have m: "map_of (foldl addToRow [] inputs) k = Some s"
    using d assms by simp
  have "s = rowTotal inputs k"
    using rowSums_value_from [of "[]" inputs k] m by (simp add: rowTotal_def inputsTotal_def)
  moreover have "k \<in> rowKeyOf ` set inputs"
    using assms rowSums_keys_from [of "[]" inputs] by force
  ultimately show ?thesis by simp
qed

lemma rowSums_complete:
  assumes "k \<in> rowKeyOf ` set inputs"
  shows "(k, rowTotal inputs k) \<in> set (foldl addToRow [] inputs)"
proof -
  have "k \<in> fst ` set (foldl addToRow [] inputs)"
    using assms rowSums_keys_from [of "[]" inputs] by simp
  then obtain s where s: "(k, s) \<in> set (foldl addToRow [] inputs)" by force
  then show ?thesis using rowSums_entries [OF s] by simp
qed

lemma checkRows_False: "checkRows rows False ec = (False, ec)"
  by (induction rows arbitrary: ec) (auto simp: Let_def)

lemma checkRows_True:
  "checkRows rows True ec
   = (case find (\<lambda>(k, s). \<not> withinTolerance s) rows of
        None \<Rightarrow> (True, ec)
      | Some (k, s) \<Rightarrow> (False, ec\<lparr>textContent := RowSumText k s, displayStyle := DisplayBlock\<rparr>))"
  by (induction rows arbitrary: ec) (auto simp: Let_def checkRows_False)


lemma find_invalid_row_None:
  "find (\<lambda>(k, s). \<not> withinTolerance s) (foldl addToRow [] inputs) = None
   \<longleftrightarrow> \<not> list_ex (\<lambda>k. \<not> nearHundred (rowTotal inputs k)) (map rowKeyOf inputs)"
proof
  assume n: "find (\<lambda>(k, s). \<not> withinTolerance s) (foldl addToRow [] inputs) = None"
  show "\<not> list_ex (\<lambda>k. \<not> nearHundred (rowTotal inputs k)) (map rowKeyOf inputs)"
  proof
    assume "list_ex (\<lambda>k. \<not> nearHundred (rowTotal inputs k)) (map rowKeyOf inputs)"
    then obtain k where k: "k \<in> rowKeyOf ` set inputs" "\<not> nearHundred (rowTotal inputs k)"
      by (auto simp: list_ex_iff)
    have "(k, rowTotal inputs k) \<in> set (foldl addToRow [] inputs)"
      using k(1) by (rule rowSums_complete)
    then have "withinTolerance (rowTotal inputs k)" using n by (auto simp: find_None_iff)
    then show False using k(2) by (simp add: withinTolerance_rowTotal)
  qed
next
  assume a: "\<not> list_ex (\<lambda>k. \<not> nearHundred (rowTotal inputs k)) (map rowKeyOf inputs)"
  show "find (\<lambda>(k, s). \<not> withinTolerance s) (foldl addToRow [] inputs) = None"
  proof (rule ccontr)
    assume "find (\<lambda>(k, s). \<not> withinTolerance s) (foldl addToRow [] inputs) \<noteq> None"
    then obtain k s where ks: "(k, s) \<in> set (foldl addToRow [] inputs)" "\<not> withinTolerance s"
      by (auto simp: find_None_iff)
    have e: "k \<in> rowKeyOf ` set inputs" "s = rowTotal inputs k"
      using rowSums_entries [OF ks(1)] by simp_all
    have "\<not> nearHundred (rowTotal inputs k)"
      using ks(2) unfolding e(2) by (simp add: withinTolerance_rowTotal)
    then show False using e(1) a by (auto simp: list_ex_iff)
  qed
qed

lemma rowSums_keys_order:
  "map fst (foldl addToRow rs inputs)
   = foldl (\<lambda>acc k. if k \<in> set acc then acc else acc @ [k]) (map fst rs) (map rowKeyOf inputs)"
proof (induction inputs arbitrary: rs)
  case Nil
  show ?case by simp
next
  case (Cons input inputs)
  have "map fst (addToRow rs input)
        = (if rowKeyOf input \<in> set (map fst rs) then map fst rs else map fst rs @ [rowKeyOf input])"
    unfolding addToRow_def Let_def keys_mapSet by simp
  then show ?case by (simp add: Cons.IH)
qed

lemma rowSums_eq:
  "foldl addToRow [] inputs = map (\<lambda>k. (k, rowTotal inputs k)) (rowKeys inputs)"
proof -
  define xs where "xs = foldl addToRow [] inputs"
  have keys: "map fst xs = rowKeys inputs"
    using rowSums_keys_order [of "[]" inputs] by (simp add: xs_def rowKeys_def firstSeen_def)
  have vals: "\<forall>p \<in> set xs. p = (fst p, rowTotal inputs (fst p))"
  proof
    fix p assume "p \<in> set xs"
    then have "(fst p, snd p) \<in> set (foldl addToRow [] inputs)" by (simp add: xs_def)
    from rowSums_entries [OF this] show "p = (fst p, rowTotal inputs (fst p))"
      by (simp add: prod_eq_iff)
  qed
  have "xs = map (\<lambda>p. (fst p, rowTotal inputs (fst p))) xs"
    using vals by (induction xs) simp_all
  also have "\<dots> = map (\<lambda>k. (k, rowTotal inputs k)) (map fst xs)" by simp
  also have "\<dots> = map (\<lambda>k. (k, rowTotal inputs k)) (rowKeys inputs)" by (simp only: keys)
  finally show ?thesis by (simp only: xs_def)
qed

lemma find_map_pair:
  "find (\<lambda>(k, s). P s) (map (\<lambda>k. (k, g k)) ks) = map_option (\<lambda>k. (k, g k)) (find (\<lambda>k. P (g k)) ks)"
  by (induction ks) simp_all

lemma find_invalid_row:
  "find (\<lambda>(k, s). \<not> withinTolerance s) (foldl addToRow [] inputs)
   = map_option (\<lambda>k. (k, rowTotal inputs k))
       (find (\<lambda>k. \<not> nearHundred (rowTotal inputs k)) (rowKeys inputs))"
  unfolding rowSums_eq find_map_pair withinTolerance_rowTotal ..

lemma validate_unchecked:
  "validateProbabilities doc e False ec isGrid = (True, ec\<lparr>displayStyle := DisplayNone\<rparr>)"
  by (simp add: validateProbabilities_def)

lemma validate_no_inputs:
  "inputsOf doc e = [] \<Longrightarrow>
   validateProbabilities doc e checked ec isGrid = (True, ec\<lparr>displayStyle := DisplayNone\<rparr>)"
  by (simp add: validateProbabilities_def inputsOf_def)

lemma validate_checked:
  assumes "inputsOf doc e \<noteq> []"
  shows "fst (validateProbabilities doc e True ec isGrid) = (\<not> sumsViolated isGrid (inputsOf doc e))"
    and "sumsViolated isGrid (inputsOf doc e) \<Longrightarrow>
         displayStyle (snd (validateProbabilities doc e True ec isGrid)) = DisplayBlock
         \<and> reportsViolation isGrid (inputsOf doc e) (textContent (snd (validateProbabilities doc e True ec isGrid)))"
proof -
  define inputs where "inputs = inputsOf doc e"
  have f: "filter (\<lambda>input. questionId input = e) (probInputs doc) = inputs"
    by (simp add: inputs_def inputsOf_def)
  have ne: "length inputs \<noteq> 0" using assms by (simp add: inputs_def)
  have t: "foldl (\<lambda>acc input. fadd acc (nanAsZero (parsedValue input))) 0 inputs = inputsTotal inputs"
    by (simp add: inputsTotal_def)
  show "fst (validateProbabilities doc e True ec isGrid) = (\<not> sumsViolated isGrid (inputsOf doc e))"
  proof (cases "isGrid \<or> list_ex (\<lambda>input. rowIdx input \<noteq> None) inputs")
    case True
    then show ?thesis
      using ne find_invalid_row_None [of inputs]
      by (cases "find (\<lambda>(k, s). \<not> withinTolerance s) (foldl addToRow [] inputs)")
         (auto simp: validateProbabilities_def f Let_def checkRows_True sumsViolated_def
                     inputs_def [symmetric] split: prod.splits)
  next
    case False
    then show ?thesis
      using ne
      by (auto simp: validateProbabilities_def f Let_def sumsViolated_def inputs_def [symmetric]
                     t withinTolerance_inputsTotal)
  qed
  assume v: "sumsViolated isGrid (inputsOf doc e)"
  show "displayStyle (snd (validateProbabilities doc e True ec isGrid)) = DisplayBlock
         \<and> reportsViolation isGrid (inputsOf doc e) (textContent (snd (validateProbabilities doc e True ec isGrid)))"
  proof (cases "isGrid \<or> list_ex (\<lambda>input. rowIdx input \<noteq> None) inputs")
    case True
    with v have "find (\<lambda>(k, s). \<not> withinTolerance s) (foldl addToRow [] inputs) \<noteq> None"
      using find_invalid_row_None [of inputs] by (auto simp: sumsViolated_def inputs_def [symmetric])
    then obtain k where k: "find (\<lambda>k. \<not> nearHundred (rowTotal inputs k)) (rowKeys inputs) = Some k"
      and ks: "find (\<lambda>(k, s). \<not> withinTolerance s) (foldl addToRow [] inputs)
               = Some (k, rowTotal inputs k)"
      unfolding find_invalid_row by auto
    have r: "validateProbabilities doc e True ec isGrid
             = (False, ec\<lparr>textContent := RowSumText k (rowTotal inputs k), displayStyle := DisplayBlock\<rparr>)"
      using True ne by (auto simp: validateProbabilities_def f Let_def checkRows_True ks)
    have "reportsViolation isGrid inputs (RowSumText k (rowTotal inputs k))"
      using True k by (auto simp: reportsViolation_def)
    then show ?thesis by (simp add: r inputs_def)
  next
    case False
    with v have nv: "\<not> nearHundred (inputsTotal inputs)"
      by (auto simp: sumsViolated_def inputs_def [symmetric])
    have r: "validateProbabilities doc e True ec isGrid
             = (False, ec\<lparr>textContent := SumText (inputsTotal inputs), displayStyle := DisplayBlock\<rparr>)"
      using False ne nv
      by (auto simp: validateProbabilities_def f Let_def t withinTolerance_inputsTotal)
    have "reportsViolation isGrid inputs (SumText (inputsTotal inputs))"
      using False by (auto simp: reportsViolation_def)
    then show ?thesis by (simp add: r inputs_def)
  qed
qed


lemma validateQuestion_fst:
  "fst (validateQuestion (b, doc) q) = (b \<and> \<not> fieldViolates doc q)"
proof (cases "mode q = ModeRandom")
  case False
  then show ?thesis by (simp add: validateQuestion_def fieldViolates_def)
next
  case r: True
  show ?thesis
  proof (cases "checkboxes doc (entryId q)")
    case None
    then show ?thesis using r by (simp add: validateQuestion_def fieldViolates_def)
  next
    case c: (Some checked)
    show ?thesis
    proof (cases "errorContainers doc (entryId q)")
      case None
      then show ?thesis using r c by (simp add: validateQuestion_def fieldViolates_def)
    next
      case e: (Some ec)
      have v: "fst (validateProbabilities doc (entryId q) checked ec (isGridType q))
               = (\<not> fieldViolates doc q)"
      proof (cases "checked \<and> inputsOf doc (entryId q) \<noteq> []")
        case True
        then show ?thesis
          using validate_checked(1) [of doc "entryId q" ec "isGridType q"] r c e
          by (simp add: fieldViolates_def)
      next
        case False
        then show ?thesis
          using validate_unchecked [of doc "entryId q" ec "isGridType q"]
                validate_no_inputs [of doc "entryId q" checked ec "isGridType q"] r c e
          by (cases checked) (auto simp: fieldViolates_def)
      qed
      obtain ok ec' where p: "validateProbabilities doc (entryId q) checked ec
          (qtype q = TypeGridRadio \<or> qtype q = TypeGridCheckbox) = (ok, ec')"
        by (cases "validateProbabilities doc (entryId q) checked ec
          (qtype q = TypeGridRadio \<or> qtype q = TypeGridCheckbox)")
      have "ok = (\<not> fieldViolates doc q)" using v p by (simp add: isGridType_def)
      then show ?thesis
        using r c e p by (simp add: validateQuestion_def Let_def)
    qed
  qed
qed

lemma validateQuestion_doc:
  "probInputs (snd (validateQuestion (b, doc) q)) = probInputs doc"
  "checkboxes (snd (validateQuestion (b, doc) q)) = checkboxes doc"
  "(errorContainers (snd (validateQuestion (b, doc) q)) e = None) = (errorContainers doc e = None)"
  "e \<noteq> entryId q \<Longrightarrow> errorContainers (snd (validateQuestion (b, doc) q)) e = errorContainers doc e"
  by (auto simp: validateQuestion_def Let_def split: option.splits prod.splits)

lemma fieldViolates_same_controls:
  assumes "probInputs doc' = probInputs doc" "checkboxes doc' = checkboxes doc"
    and "\<And>e. (errorContainers doc' e = None) = (errorContainers doc e = None)"
  shows "fieldViolates doc' q = fieldViolates doc q"
    and "inputsOf doc' e = inputsOf doc e"
  using assms by (simp_all add: fieldViolates_def inputsOf_def)

lemma fold_validate_doc:
  "probInputs (snd (foldl validateQuestion (b, doc) qs)) = probInputs doc
   \<and> checkboxes (snd (foldl validateQuestion (b, doc) qs)) = checkboxes doc
   \<and> (\<forall>e. (errorContainers (snd (foldl validateQuestion (b, doc) qs)) e = None) = (errorContainers doc e = None))
   \<and> (\<forall>e. e \<notin> entryId ` set qs \<longrightarrow>
         errorContainers (snd (foldl validateQuestion (b, doc) qs)) e = errorContainers doc e)"
proof (induction qs arbitrary: b doc)
  case Nil
  show ?case by simp
next
  case (Cons q qs)
  obtain b1 doc1 where s: "validateQuestion (b, doc) q = (b1, doc1)" by (cases "validateQuestion (b, doc) q")
  have d: "doc1 = snd (validateQuestion (b, doc) q)" by (simp add: s)
  have f: "probInputs doc1 = probInputs doc" "checkboxes doc1 = checkboxes doc"
    "\<And>e. (errorContainers doc1 e = None) = (errorContainers doc e = None)"
    "\<And>e. e \<noteq> entryId q \<Longrightarrow> errorContainers doc1 e = errorContainers doc e"
    unfolding d by (simp_all add: validateQuestion_doc)
  show ?case
    using Cons.IH [of b1 doc1] f by (simp add: s)
qed

lemma fold_validate_fst:
  "fst (foldl validateQuestion (b, doc) qs) = (b \<and> \<not> list_ex (fieldViolates doc) qs)"
proof (induction qs arbitrary: b doc)
  case Nil
  show ?case by simp
next
  case (Cons q qs)
  obtain b1 doc1 where s: "validateQuestion (b, doc) q = (b1, doc1)" by (cases "validateQuestion (b, doc) q")
  have b1: "b1 = (b \<and> \<not> fieldViolates doc q)" using validateQuestion_fst [of b doc q] by (simp add: s)
  have d: "doc1 = snd (validateQuestion (b, doc) q)" by (simp add: s)
  have same: "fieldViolates doc1 q' = fieldViolates doc q'" for q'
    by (rule fieldViolates_same_controls(1)) (simp_all add: d validateQuestion_doc)
  have "list_ex (fieldViolates doc1) qs = list_ex (fieldViolates doc) qs"
    by (simp add: list_ex_iff same)
  then show ?case using Cons.IH [of b1 doc1] by (auto simp: s b1)
qed

lemma validateQuestion_shows:
  assumes "fieldViolates doc q"
  shows "violationShown doc q (snd (validateQuestion (b, doc) q))"
proof -
  from assms obtain ec where c: "checkboxes doc (entryId q) = Some True"
    and e: "errorContainers doc (entryId q) = Some ec"
    and r: "mode q = ModeRandom" and ne: "inputsOf doc (entryId q) \<noteq> []"
    and v: "sumsViolated (isGridType q) (inputsOf doc (entryId q))"
    by (auto simp: fieldViolates_def)
  obtain ok ec' where p: "validateProbabilities doc (entryId q) True ec (isGridType q) = (ok, ec')"
    by (cases "validateProbabilities doc (entryId q) True ec (isGridType q)")
  have "displayStyle ec' = DisplayBlock \<and> reportsViolation (isGridType q) (inputsOf doc (entryId q)) (textContent ec')"
    using validate_checked(2) [OF ne v, of ec] by (simp add: p)
  then show ?thesis
    using c e r p by (simp add: violationShown_def validateQuestion_def Let_def isGridType_def)
qed

lemma fold_validate_shows:
  assumes "distinct (map entryId qs)" "q \<in> set qs" "fieldViolates doc q"
  shows "violationShown doc q (snd (foldl validateQuestion (b, doc) qs))"
  using assms
proof (induction qs arbitrary: b doc)
  case Nil
  then show ?case by simp
next
  case (Cons q' qs)
  obtain b1 doc1 where s: "validateQuestion (b, doc) q' = (b1, doc1)" by (cases "validateQuestion (b, doc) q'")
  have d: "doc1 = snd (validateQuestion (b, doc) q')" by (simp add: s)
  have same: "fieldViolates doc1 q = fieldViolates doc q"
    by (rule fieldViolates_same_controls(1)) (simp_all add: d validateQuestion_doc)
  have inp: "inputsOf doc1 (entryId q) = inputsOf doc (entryId q)"
    by (simp add: inputsOf_def d validateQuestion_doc)
  show ?case
  proof (cases "q = q'")
    case True
    have "entryId q \<notin> entryId ` set qs" using Cons.prems(1) True by auto
    then have "errorContainers (snd (foldl validateQuestion (b1, doc1) qs)) (entryId q)
               = errorContainers doc1 (entryId q)"
      using fold_validate_doc [of b1 doc1 qs] by blast
    moreover have "violationShown doc q doc1"
      using validateQuestion_shows [OF Cons.prems(3), of b] True by (simp add: d)
    ultimately show ?thesis by (simp add: s violationShown_def split: option.splits)
  next
    case False
    then have m: "q \<in> set qs" using Cons.prems(2) by simp
    have "violationShown doc1 q (snd (foldl validateQuestion (b1, doc1) qs))"
      using Cons.IH [of doc1 b1] Cons.prems(1) m same Cons.prems(3) by simp
    then show ?thesis by (simp add: s violationShown_def inp split: option.splits)
  qed
qed

lemma submitLoop_fills:
  "length (filter (\<lambda>ev. ev = FillForm) (submitLoop cfg draw i events))
   = length (filter (\<lambda>ev. ev = FillForm) events) + nat (count cfg - int i)"
proof (induction cfg draw i events rule: submitLoop.induct)
  case (1 cfg draw i events)
  show ?case
  proof (cases "int i < count cfg")
    case True
    then show ?thesis
      using "1.IH" [OF True refl refl]
      by (subst submitLoop.simps) (auto simp: Let_def nat_diff_distrib')
  next
    case False
    then show ?thesis by (subst submitLoop.simps) simp
  qed
qed


lemma handleSubmit_blocked:
  assumes "list_ex (fieldViolates doc) (questions a)"
  shows "snd (snd (handleSubmit a doc draw)) = []" and "fst (handleSubmit a doc draw) = a"
    and "\<not> fst (ensureValidProbabilities (questions a) doc)"
    and "\<not> isSubmitting a \<Longrightarrow>
         fst (snd (handleSubmit a doc draw)) = snd (ensureValidProbabilities (questions a) doc)"
proof -
  obtain ok doc' where e: "ensureValidProbabilities (questions a) doc = (ok, doc')"
    by (cases "ensureValidProbabilities (questions a) doc")
  have ok: "\<not> ok"
    using fold_validate_fst [of True doc "questions a"] e assms by (simp add: ensureValidProbabilities_def)
  show "snd (snd (handleSubmit a doc draw)) = []" using ok e by (simp add: handleSubmit_def)
  show "fst (handleSubmit a doc draw) = a" using ok e by (simp add: handleSubmit_def)
  show "\<not> fst (ensureValidProbabilities (questions a) doc)" using ok e by simp
  show "fst (snd (handleSubmit a doc draw)) = snd (ensureValidProbabilities (questions a) doc)"
    if "\<not> isSubmitting a"
    using that ok e by (simp add: handleSubmit_def)
qed

lemma handleSubmit_runs:
  assumes "\<not> list_ex (fieldViolates doc) (questions a)"
  shows "fst (ensureValidProbabilities (questions a) doc)"
    and "\<not> isSubmitting a \<Longrightarrow>
         snd (snd (handleSubmit a doc draw)) = submitLoop (submissionConfig a) draw 0 []"
proof -
  obtain ok doc' where e: "ensureValidProbabilities (questions a) doc = (ok, doc')"
    by (cases "ensureValidProbabilities (questions a) doc")
  have ok: "ok"
    using fold_validate_fst [of True doc "questions a"] e assms by (simp add: ensureValidProbabilities_def)
  show "fst (ensureValidProbabilities (questions a) doc)" using ok e by simp
  show "snd (snd (handleSubmit a doc draw)) = submitLoop (submissionConfig a) draw 0 []"
    if "\<not> isSubmitting a"
    using that ok e by (simp add: handleSubmit_def)
qed

text \<open>
  C2, as the code has it. The handler checks the fields that are in random mode, whose
  toggle is in the document and checked, whose error container is in the document and
  that have at least one probability input, and it checks the sums it computes: the
  parsed values added as doubles in document order (per row for grouped inputs, \<open>NaN\<close>
  counted as 0). If the computed sum of some such field is not within \<open>0.1\<close> of 100, the
  handler performs no fill or submit at all and leaves the automator as it was; a handler
  that was not already submitting leaves a document in which the error container of
  every such field is displayed with a text that reports the sum: for grouped inputs the
  first row whose sum is outside the tolerance, and that sum. When no field is in that
  state, validation passes, and a handler that is not already submitting performs one
  fill per planned submission. For whole percentages the computed sum is the exact sum,
  and the test of the code accepts it exactly when it is 100.
\<close>

theorem probability_sums_gate_submit:
  "(list_ex (fieldViolates doc) (questions a) \<longrightarrow>
      snd (snd (handleSubmit a doc draw)) = [] \<and> fst (handleSubmit a doc draw) = a
      \<and> \<not> fst (ensureValidProbabilities (questions a) doc)
      \<and> (\<not> isSubmitting a \<and> distinct (map entryId (questions a)) \<longrightarrow>
           list_all (\<lambda>q. fieldViolates doc q \<longrightarrow>
                      violationShown doc q (fst (snd (handleSubmit a doc draw))))
             (questions a)))
   \<and> (\<not> list_ex (fieldViolates doc) (questions a) \<longrightarrow>
        fst (ensureValidProbabilities (questions a) doc)
        \<and> (\<not> isSubmitting a \<longrightarrow>
             snd (snd (handleSubmit a doc draw)) = submitLoop (submissionConfig a) draw 0 []
             \<and> length (filter (\<lambda>ev. ev = FillForm) (snd (snd (handleSubmit a doc draw))))
                 = nat (count (submissionConfig a))))
   \<and> (list_all (\<lambda>p. 0 \<le> p) ps \<and> sum_list ps < 2 ^ 53 \<longrightarrow>
        inputsTotal (map (defaultInput e) ps) = real_of_int (sum_list ps)
        \<and> withinTolerance (real_of_int (sum_list ps)) = (sum_list ps = 100))"
proof (intro conjI impI)
  assume v: "list_ex (fieldViolates doc) (questions a)"
  show "snd (snd (handleSubmit a doc draw)) = []" by (rule handleSubmit_blocked(1) [OF v])
  show "fst (handleSubmit a doc draw) = a" by (rule handleSubmit_blocked(2) [OF v])
  show "\<not> fst (ensureValidProbabilities (questions a) doc)" by (rule handleSubmit_blocked(3) [OF v])
  assume h: "\<not> isSubmitting a \<and> distinct (map entryId (questions a))"
  then have d: "distinct (map entryId (questions a))" and ns: "\<not> isSubmitting a" by simp_all
  have doc': "fst (snd (handleSubmit a doc draw)) = snd (foldl validateQuestion (True, doc) (questions a))"
    using handleSubmit_blocked(4) [OF v ns] by (simp add: ensureValidProbabilities_def)
  show "list_all (\<lambda>q. fieldViolates doc q \<longrightarrow>
                      violationShown doc q (fst (snd (handleSubmit a doc draw)))) (questions a)"
    unfolding list_all_iff doc'
  proof (intro ballI impI)
    fix q assume "q \<in> set (questions a)" "fieldViolates doc q"
    then show "violationShown doc q (snd (foldl validateQuestion (True, doc) (questions a)))"
      by (rule fold_validate_shows [OF d])
  qed
next
  assume v: "\<not> list_ex (fieldViolates doc) (questions a)"
  show "fst (ensureValidProbabilities (questions a) doc)" by (rule handleSubmit_runs(1) [OF v])
  assume ns: "\<not> isSubmitting a"
  show r: "snd (snd (handleSubmit a doc draw)) = submitLoop (submissionConfig a) draw 0 []"
    by (rule handleSubmit_runs(2) [OF v ns])
  show "length (filter (\<lambda>ev. ev = FillForm) (snd (snd (handleSubmit a doc draw))))
        = nat (count (submissionConfig a))"
    unfolding r using submitLoop_fills [of "submissionConfig a" draw 0 "[]"] by simp
next
  assume h: "list_all (\<lambda>p. 0 \<le> p) ps \<and> sum_list ps < 2 ^ 53"
  then have nonneg: "\<forall>p \<in> set ps. 0 \<le> p" and small: "sum_list ps < 2 ^ 53"
    by (simp_all add: list_all_iff)
  show "inputsTotal (map (defaultInput e) ps) = real_of_int (sum_list ps)"
    by (rule defaultInputs_total [OF nonneg small])
  have s0: "0 \<le> sum_list ps" using nonneg by (simp add: sum_list_nonneg)
  have "\<bar>sum_list ps - 100\<bar> < 2 ^ 53" using s0 small by simp
  from toDouble_of_int [OF this]
  have "fsub (real_of_int (sum_list ps)) 100 = real_of_int (sum_list ps - 100)"
    by (simp add: fsub_def)
  moreover have "toDouble (1 / 10) = 3602879701896397 / 2 ^ 55"
    by (simp add: double_eval)
  moreover have "(\<bar>real_of_int (sum_list ps - 100)\<bar> \<le> 3602879701896397 / 2 ^ 55)
                 = (sum_list ps = 100)"
  proof
    assume "\<bar>real_of_int (sum_list ps - 100)\<bar> \<le> 3602879701896397 / 2 ^ 55"
    then have "\<bar>real_of_int (sum_list ps - 100)\<bar> < 1" by simp
    then have "\<bar>sum_list ps - 100\<bar> < 1" by linarith
    then show "sum_list ps = 100" by simp
  next
    assume "sum_list ps = 100"
    then show "\<bar>real_of_int (sum_list ps - 100)\<bar> \<le> 3602879701896397 / 2 ^ 55" by simp
  qed
  ultimately show "withinTolerance (real_of_int (sum_list ps)) = (sum_list ps = 100)"
    by (simp only: withinTolerance_def)
qed

text \<open>
  The claim does not hold of the sums as written, nor of every field in random mode. The
  inputs \<open>33.3\<close>, \<open>33.3\<close> and \<open>33.3\<close> sum to \<open>99.9\<close>, which is within \<open>0.1\<close> of 100, but the
  doubles the code adds give \<open>99.89999999999999\<close>, which is not: validation fails and
  nothing is submitted. With the inputs 60 and 39, the three planned submissions are made
  when the toggle of the field is not checked, and when its error container is not in the
  document; they are made for a field that has no probability input at all; and a handler
  that is already submitting returns without a report.
\<close>

theorem probability_sums_counterexample:
  "\<bar>(333 / 10 + 333 / 10 + 333 / 10) - 100\<bar> \<le> (1 / 10 :: real)
   \<and> \<not> fst (ensureValidProbabilities (questions exampleAutomator)
             (examplePage (Some True) True [toDouble (333 / 10), toDouble (333 / 10), toDouble (333 / 10)]))
   \<and> snd (snd (handleSubmit exampleAutomator
             (examplePage (Some True) True [toDouble (333 / 10), toDouble (333 / 10), toDouble (333 / 10)])
             zeroDraws)) = []
   \<and> mode exampleQuestion = ModeRandom \<and> qtype exampleQuestion = TypeChoice
   \<and> snd (snd (handleSubmit exampleAutomator (examplePage (Some False) True [60, 39]) zeroDraws))
       = threeRounds
   \<and> snd (snd (handleSubmit exampleAutomator (examplePage (Some True) False [60, 39]) zeroDraws))
       = threeRounds
   \<and> snd (snd (handleSubmit exampleAutomator (examplePage (Some True) True []) zeroDraws))
       = threeRounds
   \<and> fst (snd (handleSubmit busyAutomator (examplePage (Some True) True [60, 39]) zeroDraws))
       = examplePage (Some True) True [60, 39]"
proof -
  have s: "fadd (fadd (fadd 0 (toDouble (333 / 10))) (toDouble (333 / 10))) (toDouble (333 / 10))
           = 7029837543348633 / 70368744177664"
    by (simp add: fadd_def double_eval)
  have w: "\<not> withinTolerance (7029837543348633 / 70368744177664)"
    by (simp add: withinTolerance_def fsub_def double_eval)
  have l: "submitLoop \<lparr>count = 3, intervalMin = 0, intervalMax = 0\<rparr> zeroDraws 0 [] = threeRounds"
    by (simp add: submitLoop.simps Let_def zeroDraws_def threeRounds_def)
  have 1: "\<bar>(333 / 10 + 333 / 10 + 333 / 10) - 100\<bar> \<le> (1 / 10 :: real)" by simp
  have 2: "\<not> fst (ensureValidProbabilities (questions exampleAutomator)
             (examplePage (Some True) True [toDouble (333 / 10), toDouble (333 / 10), toDouble (333 / 10)]))"
    by (simp add: ensureValidProbabilities_def validateQuestion_def validateProbabilities_def
        exampleAutomator_def exampleQuestion_def examplePage_def Let_def nanAsZero_def s w)
  have 3: "snd (snd (handleSubmit exampleAutomator
             (examplePage (Some True) True [toDouble (333 / 10), toDouble (333 / 10), toDouble (333 / 10)])
             zeroDraws)) = []"
  proof -
    obtain ok d where e: "ensureValidProbabilities (questions exampleAutomator)
        (examplePage (Some True) True [toDouble (333 / 10), toDouble (333 / 10), toDouble (333 / 10)])
        = (ok, d)"
      by (cases "ensureValidProbabilities (questions exampleAutomator)
        (examplePage (Some True) True [toDouble (333 / 10), toDouble (333 / 10), toDouble (333 / 10)])")
    with 2 have "\<not> ok" by simp
    then show ?thesis by (simp add: handleSubmit_def e)
  qed
  have 4: "mode exampleQuestion = ModeRandom" "qtype exampleQuestion = TypeChoice"
    by (simp_all add: exampleQuestion_def)
  have 5: "snd (snd (handleSubmit exampleAutomator (examplePage (Some False) True [60, 39]) zeroDraws))
       = threeRounds"
    by (simp add: handleSubmit_def ensureValidProbabilities_def validateQuestion_def
        validateProbabilities_def exampleAutomator_def exampleQuestion_def examplePage_def Let_def l)
  have 6: "snd (snd (handleSubmit exampleAutomator (examplePage (Some True) False [60, 39]) zeroDraws))
       = threeRounds"
    by (simp add: handleSubmit_def ensureValidProbabilities_def validateQuestion_def
        exampleAutomator_def exampleQuestion_def examplePage_def Let_def l)
  have 7: "snd (snd (handleSubmit exampleAutomator (examplePage (Some True) True []) zeroDraws))
       = threeRounds"
    by (simp add: handleSubmit_def ensureValidProbabilities_def validateQuestion_def
        validateProbabilities_def exampleAutomator_def exampleQuestion_def examplePage_def Let_def l)
  have 8: "fst (snd (handleSubmit busyAutomator (examplePage (Some True) True [60, 39]) zeroDraws))
       = examplePage (Some True) True [60, 39]"
    by (simp add: handleSubmit_def busyAutomator_def)
  show ?thesis using 1 2 3 4 5 6 7 8 by blast
qed

theorem probability_sums_gate_submit_witness:
  "list_ex (fieldViolates (examplePage (Some True) True [60, 39])) (questions exampleAutomator)
   \<and> snd (snd (handleSubmit exampleAutomator (examplePage (Some True) True [60, 39]) zeroDraws)) = []
   \<and> violationShown (examplePage (Some True) True [60, 39]) exampleQuestion
        (fst (snd (handleSubmit exampleAutomator (examplePage (Some True) True [60, 39]) zeroDraws)))
   \<and> \<not> list_ex (fieldViolates (examplePage (Some True) True [60, 40])) (questions exampleAutomator)
   \<and> fst (ensureValidProbabilities (questions exampleAutomator) (examplePage (Some True) True [60, 40]))
   \<and> length (filter (\<lambda>ev. ev = FillForm)
        (snd (snd (handleSubmit exampleAutomator (examplePage (Some True) True [60, 40]) zeroDraws)))) = 3
   \<and> inputsTotal (map (defaultInput ''q1'') [60, 39]) = 99
   \<and> \<not> withinTolerance 99"
proof -
  have i39: "inputsTotal [\<lparr>questionId = ''q1'', rowIdx = None, parsedValue = Some 60\<rparr>,
                          \<lparr>questionId = ''q1'', rowIdx = None, parsedValue = Some 39\<rparr>] = 99"
    by (simp add: inputsTotal_def fadd_def nanAsZero_def double_eval)
  have i40: "inputsTotal [\<lparr>questionId = ''q1'', rowIdx = None, parsedValue = Some 60\<rparr>,
                          \<lparr>questionId = ''q1'', rowIdx = None, parsedValue = Some 40\<rparr>] = 100"
    by (simp add: inputsTotal_def fadd_def nanAsZero_def double_eval)
  have v: "fieldViolates (examplePage (Some True) True [60, 39]) exampleQuestion"
    by (simp add: fieldViolates_def examplePage_def exampleQuestion_def inputsOf_def
        sumsViolated_def isGridType_def i39 nearHundred_def)
  have nv: "\<not> fieldViolates (examplePage (Some True) True [60, 40]) exampleQuestion"
    by (simp add: fieldViolates_def examplePage_def exampleQuestion_def inputsOf_def
        sumsViolated_def isGridType_def i40 nearHundred_def)
  have q: "questions exampleAutomator = [exampleQuestion]" "\<not> isSubmitting exampleAutomator"
    "count (submissionConfig exampleAutomator) = 3"
    by (simp_all add: exampleAutomator_def)
  have d: "distinct (map entryId (questions exampleAutomator))" by (simp add: q)
  note bad = probability_sums_gate_submit [of "examplePage (Some True) True [60, 39]"
      exampleAutomator zeroDraws "[60, 39]" "''q1''", THEN conjunct1]
  note good = probability_sums_gate_submit [of "examplePage (Some True) True [60, 40]"
      exampleAutomator zeroDraws "[60, 39]" "''q1''", THEN conjunct2, THEN conjunct1]
  note whole = probability_sums_gate_submit [of "examplePage (Some True) True [60, 39]"
      exampleAutomator zeroDraws "[60, 39]" "''q1''", THEN conjunct2, THEN conjunct2]
  have 1: "list_ex (fieldViolates (examplePage (Some True) True [60, 39])) (questions exampleAutomator)"
    using v by (simp add: q)
  have 2: "\<not> list_ex (fieldViolates (examplePage (Some True) True [60, 40])) (questions exampleAutomator)"
    using nv by (simp add: q)
  have 3: "snd (snd (handleSubmit exampleAutomator (examplePage (Some True) True [60, 39]) zeroDraws)) = []"
    using bad 1 by blast
  have "list_all (\<lambda>q. fieldViolates (examplePage (Some True) True [60, 39]) q \<longrightarrow>
          violationShown (examplePage (Some True) True [60, 39]) q
            (fst (snd (handleSubmit exampleAutomator (examplePage (Some True) True [60, 39]) zeroDraws))))
          (questions exampleAutomator)"
    using bad 1 d q(2) by blast
  then have 4: "violationShown (examplePage (Some True) True [60, 39]) exampleQuestion
        (fst (snd (handleSubmit exampleAutomator (examplePage (Some True) True [60, 39]) zeroDraws)))"
    using v by (simp add: q)
  have 5: "fst (ensureValidProbabilities (questions exampleAutomator) (examplePage (Some True) True [60, 40]))"
    using good 2 by blast
  have "length (filter (\<lambda>ev. ev = FillForm)
        (snd (snd (handleSubmit exampleAutomator (examplePage (Some True) True [60, 40]) zeroDraws))))
        = nat (count (submissionConfig exampleAutomator))"
    using good 2 q(2) by blast
  then have 6: "length (filter (\<lambda>ev. ev = FillForm)
        (snd (snd (handleSubmit exampleAutomator (examplePage (Some True) True [60, 40]) zeroDraws)))) = 3"
    by (simp add: q(3))
  have h: "list_all (\<lambda>p. 0 \<le> p) [60, 39 :: int] \<and> sum_list [60, 39 :: int] < 2 ^ 53" by simp
  have s: "sum_list [60, 39 :: int] = 99" by simp
  have "inputsTotal (map (defaultInput ''q1'') [60, 39]) = real_of_int (sum_list [60, 39])
        \<and> withinTolerance (real_of_int (sum_list [60, 39])) = (sum_list [60, 39 :: int] = 100)"
    using whole h by blast
  then have 7: "inputsTotal (map (defaultInput ''q1'') [60, 39]) = 99" and 8: "\<not> withinTolerance 99"
    unfolding s by simp_all
  show ?thesis using 1 2 3 4 5 6 7 8 by blast
qed

section \<open>Validation of a randomization config: what holds and what does not\<close>

lemma validateConfig_valid_iff: "valid (validateConfig config) = (errors (validateConfig config) = [])"
  by (simp add: validateConfig_def Let_def)

lemma validateConfig_pick:
  assumes "rtype config = Some Pick"
  shows "valid (validateConfig config) = (\<exists>os. options config = Some os \<and> os \<noteq> [])"
  using assms by (cases "options config") (auto simp: validateConfig_def Let_def optionsMissing_def)

lemma validateConfig_range_nonzero_max:
  assumes "rtype config = Some Range" "minBound config = Some a" "maxBound config = Some b"
    and "b \<noteq> 0" "a > b"
  shows "\<not> valid (validateConfig config)"
  using assms by (auto simp: validateConfig_def Let_def numberOr_def)

lemma validateConfig_range_zero_max:
  assumes "rtype config = Some Range" "minBound config = Some a" "maxBound config = Some 0"
  shows "valid (validateConfig config) = (a \<le> 100)"
  using assms by (auto simp: validateConfig_def Let_def numberOr_def)

text \<open>
  C8. Validation collects one error per violated rule, reports \<open>valid\<close> exactly when it
  collected none, and rejects a pick without options (the lemmas above). A range whose
  bounds are both numbers with \<open>min > max\<close> is rejected when \<open>max\<close> is not 0; with \<open>max = 0\<close>
  the comparison is made against 100 (\<open>config.max || 100\<close>), and the range from 5 down
  to 0 is reported valid with no error.
\<close>

theorem validateConfig_accepts_max_zero:
  "validateConfig rangeFiveToZero = \<lparr>valid = True, errors = []\<rparr>"
  by (simp add: validateConfig_def rangeFiveToZero_def numberOr_def)

section \<open>Weighted selection: the weight of an option\<close>

lemma numberOr_present: "v \<noteq> 0 \<Longrightarrow> numberOr (Some v) d = v"
  and numberOr_missing: "numberOr None d = d"
  and numberOr_zero: "numberOr (Some 0) d = d"
  by (simp_all add: numberOr_def)

lemma zero_weight_always_selected:
  assumes "0 \<le> r" "r < 1"
  shows "generateWeighted [''a'', ''b''] [(''a'', 0), (''b'', 1)] r = JsVal ''a''"
  using assms by (simp add: generateWeighted_def numberOr_def)

text \<open>
  C9. The weight used for an option is its entry in \<open>weights\<close> when that entry is present
  and not 0, and 1 when the entry is missing; an entry of 0 is replaced by 1 as well
  (\<open>weights[optionKey] || 1\<close>). With weights \<open>a: 0, b: 1\<close> the walk returns \<open>a\<close>, the option
  whose configured weight is 0.
\<close>

theorem generateWeighted_selects_zero_weight:
  "generateWeighted [''a'', ''b''] [(''a'', 0), (''b'', 1)] (1/2) = JsVal ''a''"
  by (simp add: generateWeighted_def numberOr_def)

section \<open>Option extraction\<close>

lemma foldl_pushOption:
  "foldl pushOption acc ns = acc @ filter (\<lambda>t. t \<noteq> []) (map optionText ns)"
  by (induction ns arbitrary: acc) (simp_all add: pushOption_def optionText_def Let_def)

lemma pushNewOption_alt:
  "pushNewOption opts n
   = (if optionText n \<noteq> [] \<and> optionText n \<notin> set opts then opts @ [optionText n] else opts)"
  by (simp add: pushNewOption_def optionText_def Let_def)

lemma foldl_pushNewOption:
  "foldl pushNewOption [] ns = rev (remdups (rev (filter (\<lambda>t. t \<noteq> []) (map optionText ns))))"
proof (induction ns rule: rev_induct)
  case Nil
  show ?case by simp
next
  case (snoc n ns)
  define r where "r = rev (remdups (rev (filter (\<lambda>t. t \<noteq> []) (map optionText ns))))"
  have ih: "foldl pushNewOption [] ns = r" unfolding r_def by (rule snoc.IH)
  have step: "foldl pushNewOption [] (ns @ [n]) = pushNewOption r n"
    by (simp only: foldl_append foldl.simps ih)
  have mem: "optionText n \<in> set r \<longleftrightarrow> optionText n \<noteq> [] \<and> optionText n \<in> optionText ` set ns"
    by (auto simp: r_def)
  have goal: "rev (remdups (rev (filter (\<lambda>t. t \<noteq> []) (map optionText (ns @ [n])))))
              = (if optionText n \<noteq> [] \<and> optionText n \<notin> set r then r @ [optionText n] else r)"
    by (auto simp: r_def)
  have fin: "pushNewOption r n
             = rev (remdups (rev (filter (\<lambda>t. t \<noteq> []) (map optionText (ns @ [n])))))"
    by (simp only: pushNewOption_alt goal)
  show ?case by (simp only: step fin)
qed

lemma extractOptions_dropdown:
  "extractOptions element Dropdown
   = filter (\<lambda>t. t \<noteq> []) (map optionText (querySelectorAll element matchesOption))"
  by (simp add: extractOptions_def foldl_pushOption)

lemma extractOptions_choice:
  assumes "qt = Radio \<or> qt = Checkbox"
  shows "extractOptions element qt
         = rev (remdups (rev (filter (\<lambda>t. t \<noteq> []) (map optionText (querySelectorAll element matchesLabel)))))"
    and "distinct (extractOptions element qt)"
    and "[] \<notin> set (extractOptions element qt)"
proof -
  show e: "extractOptions element qt
         = rev (remdups (rev (filter (\<lambda>t. t \<noteq> []) (map optionText (querySelectorAll element matchesLabel)))))"
    using assms by (auto simp: extractOptions_def foldl_pushNewOption)
  show "distinct (extractOptions element qt)" by (simp add: e)
  show "[] \<notin> set (extractOptions element qt)" by (simp add: e)
qed

text \<open>
  C4. For radio and checkbox questions the extracted options are the non-empty trimmed
  texts in document order, each kept at its first occurrence (lemma
  \<open>extractOptions_choice\<close>). For a dropdown the texts are not compared with those already
  collected: a list that shows \<open>A\<close> twice yields \<open>A\<close> twice, where the same markup read as a
  radio group yields it once.
\<close>

theorem extractOptions_dropdown_keeps_duplicate:
  "extractOptions duplicateOptions Dropdown = [''A'', ''A'', ''B'']
   \<and> extractOptions duplicateOptions Radio = [''A'', ''B'']"
  by (simp add: extractOptions_def duplicateOptions_def querySelectorAll_def matchesOption_def
      matchesLabel_def getAttribute_def tagName_def pushOption_def pushNewOption_def trim_def
      isWhiteSpace_def Let_def)

section \<open>The run engine\<close>

text \<open>
  C1. A call of \<open>startRun\<close> made while \<open>runningProcess\<close> is set is rejected with the error
  "A submission run is already in progress", and the running run is left as it was: its
  handle and abort flag, and the counters, the errors and the running flag of its
  progress.
\<close>

theorem startRun_rejects_concurrent:
  "startRun (Some f) config env = (Some f, Inl (JsError ''A submission run is already in progress''))"
  by (simp add: startRun_def)

lemma recordedFailures_Suc:
  "recordedFailures env (Suc n) = recordedFailures env n @ failureRecord env n"
  by (simp add: recordedFailures_def)

lemma atIteration_initial: "atIteration env 0 (initialProgress config)"
  by (simp add: atIteration_def initialProgress_def recordedFailures_def)

lemma atIteration_same_counts:
  assumes "atIteration env i p"
    and "currentSubmissionIndex q = currentSubmissionIndex p"
    and "runErrors q = runErrors p"
    and "failedSubmissions q = failedSubmissions p"
    and "completedSubmissions q = completedSubmissions p"
  shows "atIteration env i q"
  using assms unfolding atIteration_def by (elim conjE) simp

lemma reportProgress_cases:
  "\<exists>f'. reportProgress config env i f
           = (f', case callbackThrows env i of None \<Rightarrow> Continue | Some err \<Rightarrow> Throw err)
        \<and> currentSubmissionIndex (progress f') = currentSubmissionIndex (progress f)
        \<and> runErrors (progress f') = runErrors (progress f)
        \<and> failedSubmissions (progress f') = failedSubmissions (progress f)
        \<and> completedSubmissions (progress f') = completedSubmissions (progress f)
        \<and> aborted f' = (aborted f \<or> stopInCallback env i)"
  by (simp add: reportProgress_def Let_def abortFrame_def)

text \<open>What the submission of iteration \<open>i\<close> leaves in the progress, before the sleep.\<close>

lemma runIteration_submission:
  assumes na: "\<not> aborted f" and inv: "atIteration env i (progress f)"
    and h1: "stopOnError config \<Longrightarrow> submissionResult env i = None"
  shows "\<exists>g. runIteration config env i f = afterSubmission config env i g
             \<and> atIteration env (Suc i) (progress g)
             \<and> aborted g = stopDuringSubmission env i"
proof (cases "submissionResult env i")
  case None
  define g where "g = (if stopDuringSubmission env i then abortFrame f else f)
      \<lparr>progress := (progress f)\<lparr>currentSubmissionIndex := int i + 1,
                                 completedSubmissions := completedSubmissions (progress f) + 1,
                                 lastSubmissionTime := Some (clock env i)\<rparr>\<rparr>"
  have "runIteration config env i f = afterSubmission config env i g"
    using na None by (simp add: runIteration_def Let_def g_def)
  moreover have "atIteration env (Suc i) (progress g)"
    using inv None by (auto simp: atIteration_def g_def recordedFailures_Suc failureRecord_def)
  moreover have "aborted g = stopDuringSubmission env i"
    using na by (simp add: g_def abortFrame_def)
  ultimately show ?thesis by blast
next
  case (Some err)
  then have ns: "\<not> stopOnError config" using h1 by auto
  define g where "g = (if stopDuringSubmission env i then abortFrame f else f)
      \<lparr>progress := (progress f)\<lparr>currentSubmissionIndex := int i + 1,
                                 failedSubmissions := failedSubmissions (progress f) + 1,
                                 runErrors := runErrors (progress f) @
                                   [\<lparr>submissionIndex = int i + 1, errorQuestionId = ''form'',
                                     message = errorToString err, timestamp = clock env i\<rparr>]\<rparr>\<rparr>"
  have "runIteration config env i f = afterSubmission config env i g"
    using na Some ns by (simp add: runIteration_def Let_def g_def)
  moreover have "atIteration env (Suc i) (progress g)"
    using inv Some by (auto simp: atIteration_def g_def recordedFailures_Suc failureRecord_def)
  moreover have "aborted g = stopDuringSubmission env i"
    using na by (simp add: g_def abortFrame_def)
  ultimately show ?thesis by blast
qed

lemma runIteration_continues:
  assumes na: "\<not> aborted f" and inv: "atIteration env i (progress f)"
    and h1: "stopOnError config \<Longrightarrow> submissionResult env i = None"
    and h2: "int i < submissionCount config - 1 \<Longrightarrow>
             \<not> stopDuringSubmission env i \<and> \<not> stopDuringSleep env i"
    and h3: "callbackThrows env i = None"
  shows "\<exists>f'. runIteration config env i f = (f', Continue)
              \<and> atIteration env (Suc i) (progress f')
              \<and> aborted f' = (stopDuringSubmission env i \<or> stopInCallback env i)"
proof -
  obtain g where g: "runIteration config env i f = afterSubmission config env i g"
    "atIteration env (Suc i) (progress g)" "aborted g = stopDuringSubmission env i"
    using runIteration_submission [OF na inv h1] by blast
  have a: "afterSubmission config env i g = reportProgress config env i g"
    using g(3) h2 by (auto simp: afterSubmission_def)
  obtain f' where f': "reportProgress config env i g = (f', Continue)"
    "currentSubmissionIndex (progress f') = currentSubmissionIndex (progress g)"
    "runErrors (progress f') = runErrors (progress g)"
    "failedSubmissions (progress f') = failedSubmissions (progress g)"
    "completedSubmissions (progress f') = completedSubmissions (progress g)"
    "aborted f' = (aborted g \<or> stopInCallback env i)"
    using reportProgress_cases [of config env i g] h3 by auto
  have "atIteration env (Suc i) (progress f')"
    by (rule atIteration_same_counts [OF g(2) f'(2-5)])
  then show ?thesis using g(1) a f'(1) f'(6) g(3) by simp
qed

lemma runIteration_rethrows:
  assumes "\<not> aborted f" "atIteration env i (progress f)"
    and "submissionResult env i = Some err" "stopOnError config"
  shows "\<exists>f'. runIteration config env i f = (f', Throw err)
              \<and> atIteration env (Suc i) (progress f')"
  using assms
  by (auto simp: runIteration_def Let_def atIteration_def recordedFailures_Suc failureRecord_def)

lemma runIteration_aborts:
  assumes na: "\<not> aborted f" and inv: "atIteration env i (progress f)"
    and h1: "stopOnError config \<Longrightarrow> submissionResult env i = None"
    and lt: "int i < submissionCount config - 1"
    and st: "stopDuringSubmission env i \<or> stopDuringSleep env i"
  shows "\<exists>f'. runIteration config env i f = (f', Throw (JsError ''Aborted''))
              \<and> atIteration env (Suc i) (progress f')"
proof -
  obtain g where g: "runIteration config env i f = afterSubmission config env i g"
    "atIteration env (Suc i) (progress g)" "aborted g = stopDuringSubmission env i"
    using runIteration_submission [OF na inv h1] by blast
  show ?thesis
  proof (cases "stopDuringSubmission env i")
    case True
    then have "afterSubmission config env i g = (g, Throw (JsError ''Aborted''))"
      using lt g(3) by (simp add: afterSubmission_def)
    then show ?thesis using g(1,2) by auto
  next
    case False
    then have "afterSubmission config env i g = (abortFrame g, Throw (JsError ''Aborted''))"
      using lt g(3) st by (simp add: afterSubmission_def)
    moreover have "atIteration env (Suc i) (progress (abortFrame g))"
      by (rule atIteration_same_counts [OF g(2)]) (simp_all add: abortFrame_def)
    ultimately show ?thesis using g(1) by auto
  qed
qed

lemma runIteration_callback_throws:
  assumes na: "\<not> aborted f" and inv: "atIteration env i (progress f)"
    and h1: "stopOnError config \<Longrightarrow> submissionResult env i = None"
    and h2: "int i < submissionCount config - 1 \<Longrightarrow>
             \<not> stopDuringSubmission env i \<and> \<not> stopDuringSleep env i"
    and h3: "callbackThrows env i = Some err"
  shows "\<exists>f'. runIteration config env i f = (f', Throw err)
              \<and> atIteration env (Suc i) (progress f')"
proof -
  obtain g where g: "runIteration config env i f = afterSubmission config env i g"
    "atIteration env (Suc i) (progress g)" "aborted g = stopDuringSubmission env i"
    using runIteration_submission [OF na inv h1] by blast
  have a: "afterSubmission config env i g = reportProgress config env i g"
    using g(3) h2 by (auto simp: afterSubmission_def)
  obtain f' where f': "reportProgress config env i g = (f', Throw err)"
    "currentSubmissionIndex (progress f') = currentSubmissionIndex (progress g)"
    "runErrors (progress f') = runErrors (progress g)"
    "failedSubmissions (progress f') = failedSubmissions (progress g)"
    "completedSubmissions (progress f') = completedSubmissions (progress g)"
    using reportProgress_cases [of config env i g] h3 by auto
  have "atIteration env (Suc i) (progress f')"
    by (rule atIteration_same_counts [OF g(2) f'(2-5)])
  then show ?thesis using g(1) a f'(1) by simp
qed

text \<open>Once the abort flag is set, the loop ends at its next test and adds nothing.\<close>

lemma runLoop_aborted:
  assumes "aborted f"
  shows "\<exists>f'. runLoop config env i f = (f', None)
              \<and> currentSubmissionIndex (progress f') = currentSubmissionIndex (progress f)
              \<and> runErrors (progress f') = runErrors (progress f)
              \<and> failedSubmissions (progress f') = failedSubmissions (progress f)
              \<and> completedSubmissions (progress f') = completedSubmissions (progress f)"
  using assms by (subst runLoop.simps) (simp add: runIteration_def)

lemma iterationsRun_all:
  assumes "\<forall>j < nat (submissionCount config). \<not> stopInCallback env j"
  shows "iterationsRun config env = nat (submissionCount config)"
proof -
  have "find (stopInCallback env) [0..<nat (submissionCount config)] = None"
    using assms by (simp add: find_None_iff)
  then show ?thesis by (simp add: iterationsRun_def)
qed

lemma iterationsRun_first:
  assumes "i < nat (submissionCount config)" "stopInCallback env i" "\<forall>j < i. \<not> stopInCallback env j"
  shows "iterationsRun config env = Suc i"
proof -
  have "find (stopInCallback env) [0..<nat (submissionCount config)] = Some i"
    unfolding find_Some_iff
  proof (intro exI [of _ i] conjI)
    show "i < length [0..<nat (submissionCount config)]" using assms(1) by simp
    show "stopInCallback env ([0..<nat (submissionCount config)] ! i)" using assms(1,2) by simp
    show "i = [0..<nat (submissionCount config)] ! i" using assms(1) by simp
    show "\<forall>j<i. \<not> stopInCallback env ([0..<nat (submissionCount config)] ! j)"
      using assms(1,3) by simp
  qed
  then show ?thesis by (simp add: iterationsRun_def)
qed

lemma runLoop_resolves:
  assumes h1: "noFailureUnderStopOnError config env" and h2: "noStopBeforeLast config env"
    and h3: "callbackReturns config env"
    and inv: "atIteration env i (progress f)" and na: "\<not> aborted f"
    and le: "i \<le> nat (submissionCount config)" and ns: "\<forall>j < i. \<not> stopInCallback env j"
  shows "\<exists>f'. runLoop config env i f = (f', None)
              \<and> atIteration env (iterationsRun config env) (progress f')"
  using inv na le ns
proof (induction "nat (submissionCount config - int i)" arbitrary: i f)
  case 0
  then have nlt: "\<not> int i < submissionCount config" by simp
  then have r: "runLoop config env i f = (f, None)" by (subst runLoop.simps) simp
  have "i = nat (submissionCount config)" using nlt "0.prems"(3) by linarith
  then have "iterationsRun config env = i" using "0.prems"(4) by (simp add: iterationsRun_all)
  then show ?case using r "0.prems"(1) by simp
next
  case (Suc d)
  then have lt: "int i < submissionCount config" by linarith
  then have ilt: "i < nat (submissionCount config)" by linarith
  have l1: "stopOnError config \<Longrightarrow> submissionResult env i = None"
    using h1 lt by (auto simp: noFailureUnderStopOnError_def list_all_iff)
  have l2: "int i < submissionCount config - 1 \<Longrightarrow>
            \<not> stopDuringSubmission env i \<and> \<not> stopDuringSleep env i"
    using h2 by (auto simp: noStopBeforeLast_def list_all_iff)
  have l3: "callbackThrows env i = None"
    using h3 ilt by (auto simp: callbackReturns_def list_all_iff)
  obtain f' where f': "runIteration config env i f = (f', Continue)"
    "atIteration env (Suc i) (progress f')"
    "aborted f' = (stopDuringSubmission env i \<or> stopInCallback env i)"
    using runIteration_continues [OF Suc.prems(2) Suc.prems(1) l1 l2 l3] by blast
  have step: "runLoop config env i f = runLoop config env (Suc i) f'"
    using lt f'(1) by (subst runLoop.simps) simp
  show ?case
  proof (cases "aborted f'")
    case True
    obtain f'' where f'': "runLoop config env (Suc i) f' = (f'', None)"
      "currentSubmissionIndex (progress f'') = currentSubmissionIndex (progress f')"
      "runErrors (progress f'') = runErrors (progress f')"
      "failedSubmissions (progress f'') = failedSubmissions (progress f')"
      "completedSubmissions (progress f'') = completedSubmissions (progress f')"
      using runLoop_aborted [OF True, of config env "Suc i"] by blast
    have at: "atIteration env (Suc i) (progress f'')"
      by (rule atIteration_same_counts [OF f'(2) f''(2-5)])
    have n: "iterationsRun config env = Suc i"
    proof (cases "stopInCallback env i")
      case True
      then show ?thesis using ilt Suc.prems(4) by (intro iterationsRun_first) simp_all
    next
      case False
      with True f'(3) have "stopDuringSubmission env i" by simp
      with l2 have "\<not> int i < submissionCount config - 1" by blast
      with lt have e: "nat (submissionCount config) = Suc i" by linarith
      have "\<forall>j < nat (submissionCount config). \<not> stopInCallback env j"
        unfolding e using False Suc.prems(4) by (simp add: less_Suc_eq)
      then show ?thesis using e by (simp add: iterationsRun_all)
    qed
    show ?thesis using step f''(1) at n by simp
  next
    case False
    then have nsi: "\<not> stopInCallback env i" using f'(3) by simp
    have d: "d = nat (submissionCount config - int (Suc i))" using Suc.hyps(2) by linarith
    have le': "Suc i \<le> nat (submissionCount config)" using ilt by simp
    have ns': "\<forall>j < Suc i. \<not> stopInCallback env j" using nsi Suc.prems(4) by (simp add: less_Suc_eq)
    from Suc.hyps(1) [OF d f'(2) False le' ns']
    show ?thesis using step by simp
  qed
qed

lemma runLoop_prefix:
  assumes u: "undisturbedUntil config env i0" and i0: "int i0 \<le> submissionCount config"
    and "i \<le> i0" "\<not> aborted f" "atIteration env i (progress f)"
  shows "\<exists>f'. runLoop config env i f = runLoop config env i0 f' \<and> \<not> aborted f'
              \<and> atIteration env i0 (progress f')"
  using assms(3-5)
proof (induction "i0 - i" arbitrary: i f)
  case 0
  then have "i = i0" by simp
  then show ?case using "0.prems"(2,3) by blast
next
  case (Suc d)
  then have lt: "i < i0" by linarith
  then have li: "int i < submissionCount config" using i0 by linarith
  have q: "undisturbed config env i"
    using u lt by (simp add: undisturbedUntil_def list_all_iff)
  then have q1: "stopOnError config \<Longrightarrow> submissionResult env i = None"
    and q2: "int i < submissionCount config - 1 \<Longrightarrow>
             \<not> stopDuringSubmission env i \<and> \<not> stopDuringSleep env i"
    and q3: "callbackThrows env i = None"
    and q4: "\<not> (stopDuringSubmission env i \<or> stopInCallback env i)"
    by (simp_all add: undisturbed_def)
  obtain f' where f': "runIteration config env i f = (f', Continue)"
    "atIteration env (Suc i) (progress f')"
    "aborted f' = (stopDuringSubmission env i \<or> stopInCallback env i)"
    using runIteration_continues [OF Suc.prems(2) Suc.prems(3) q1 q2 q3] by blast
  have na: "\<not> aborted f'" using f'(3) q4 by simp
  have d: "d = i0 - Suc i" using Suc.hyps(2) by linarith
  have "Suc i \<le> i0" using lt by simp
  from Suc.hyps(1) [OF d this na f'(2)]
  obtain f'' where "runLoop config env (Suc i) f' = runLoop config env i0 f''" "\<not> aborted f''"
    "atIteration env i0 (progress f'')"
    by blast
  moreover have "runLoop config env i f = runLoop config env (Suc i) f'"
    using li f'(1) by (subst runLoop.simps) simp
  ultimately show ?case by auto
qed

lemma recordedFailures_none:
  "list_all (\<lambda>j. submissionResult env j = None) [0..<n] \<Longrightarrow> recordedFailures env n = []"
  by (induction n) (simp_all add: recordedFailures_Suc failureRecord_def recordedFailures_def)

lemma runToEnd_resolves:
  assumes "noFailureUnderStopOnError config env" "noStopBeforeLast config env"
    "callbackReturns config env"
  shows "\<exists>p. runToEnd config env = (p, None) \<and> \<not> isRunning p
             \<and> atIteration env (iterationsRun config env) p"
proof -
  define f0 where "f0 = \<lparr>configId = ''run-'' @ decimal (startTime env), aborted = False,
                progress = initialProgress config\<rparr>"
  have "atIteration env 0 (progress f0)" "\<not> aborted f0" by (simp_all add: f0_def atIteration_initial)
  then obtain f' where l: "runLoop config env 0 f0 = (f', None)"
    "atIteration env (iterationsRun config env) (progress f')"
    using runLoop_resolves [OF assms, of 0 f0] by auto
  have "atIteration env (iterationsRun config env) ((progress f')\<lparr>isRunning := False\<rparr>)"
    by (rule atIteration_same_counts [OF l(2)]) simp_all
  moreover have "runToEnd config env = ((progress f')\<lparr>isRunning := False\<rparr>, None)"
    using l(1) [unfolded f0_def] by (simp add: runToEnd_def)
  ultimately show ?thesis by auto
qed

text \<open>
  When the iterations before \<open>i0\<close> are undisturbed and iteration \<open>i0\<close> throws, the run
  ends there: the \<open>finally\<close> block clears the running flag, and the exception passes on.
\<close>

lemma runToEnd_throws:
  assumes i0: "int i0 < submissionCount config" and u: "undisturbedUntil config env i0"
    and step: "\<And>f. \<not> aborted f \<Longrightarrow> atIteration env i0 (progress f) \<Longrightarrow>
                 \<exists>f'. runIteration config env i0 f = (f', Throw err)
                      \<and> atIteration env (Suc i0) (progress f')"
  shows "\<exists>p. runToEnd config env = (p, Some err) \<and> \<not> isRunning p \<and> atIteration env (Suc i0) p"
proof -
  define f0 where "f0 = \<lparr>configId = ''run-'' @ decimal (startTime env), aborted = False,
                progress = initialProgress config\<rparr>"
  have "atIteration env 0 (progress f0)" "\<not> aborted f0" by (simp_all add: f0_def atIteration_initial)
  moreover have "int i0 \<le> submissionCount config" using i0 by simp
  ultimately obtain f1 where f1: "runLoop config env 0 f0 = runLoop config env i0 f1"
    "\<not> aborted f1" "atIteration env i0 (progress f1)"
    using runLoop_prefix [OF u, of 0 f0] by auto
  obtain f' where f': "runIteration config env i0 f1 = (f', Throw err)"
    "atIteration env (Suc i0) (progress f')"
    using step [OF f1(2,3)] by blast
  have "runLoop config env i0 f1 = (f', Some err)"
    using i0 f'(1) by (subst runLoop.simps) simp
  then have l: "runLoop config env 0 f0 = (f', Some err)" using f1(1) by simp
  have "atIteration env (Suc i0) ((progress f')\<lparr>isRunning := False\<rparr>)"
    by (rule atIteration_same_counts [OF f'(2)]) simp_all
  moreover have "runToEnd config env = ((progress f')\<lparr>isRunning := False\<rparr>, Some err)"
    using l [unfolded f0_def] by (simp add: runToEnd_def)
  ultimately show ?thesis by auto
qed

lemma startRun_throws:
  assumes "\<exists>p. runToEnd config env = (p, Some err) \<and> \<not> isRunning p \<and> atIteration env n p"
  shows "startRun None config env = (None, Inl err)"
    and "\<not> isRunning (fst (runToEnd config env))"
    and "runErrors (fst (runToEnd config env)) = recordedFailures env n"
proof -
  from assms obtain p where r: "runToEnd config env = (p, Some err)" "\<not> isRunning p"
    "atIteration env n p" by blast
  show "startRun None config env = (None, Inl err)" using r(1) by (simp add: startRun_def)
  show "\<not> isRunning (fst (runToEnd config env))" using r(1,2) by simp
  have "runErrors p = recordedFailures env n" using r(3) unfolding atIteration_def by (elim conjE)
  then show "runErrors (fst (runToEnd config env)) = recordedFailures env n" using r(1) by simp
qed

text \<open>
  C3, as the code has it. \<open>stopRun\<close> only sets the abort flag of the running process, if
  there is one. \<open>startRun\<close> resolves when stop-on-error is off (or no submission fails),
  \<open>stopRun\<close> is not called while a submission followed by a sleep, or that sleep, is
  pending, and the progress callback does not throw: the progress it resolves with has
  its running flag off, the index of the last iteration executed (all the planned ones,
  or those up to the first in which the callback called \<open>stopRun\<close>) and one error per
  failed iteration among them, in order. Otherwise it rejects, at the first iteration
  \<open>i0\<close> that is disturbed, after the \<open>finally\<close> block has cleared the running flag and the
  handle: with the error of the failing submission, which is recorded in the errors,
  when stop-on-error is on; with \<open>Error("Aborted")\<close> when \<open>stopRun\<close> is called while the
  submission or the sleep of an iteration that is not the last is pending; with what the
  progress callback throws, when it throws.
\<close>

theorem startRun_resolves_or_rethrows:
  "(noFailureUnderStopOnError config env \<and> noStopBeforeLast config env
      \<and> callbackReturns config env \<longrightarrow>
      (\<exists>p. startRun None config env = (None, Inr p) \<and> \<not> isRunning p
           \<and> currentSubmissionIndex p = int (iterationsRun config env)
           \<and> runErrors p = recordedFailures env (iterationsRun config env)
           \<and> failedSubmissions p = int (length (runErrors p))
           \<and> completedSubmissions p + failedSubmissions p = int (iterationsRun config env)))
   \<and> (int i0 < submissionCount config \<and> undisturbedUntil config env i0 \<longrightarrow>
        (stopOnError config \<and> submissionResult env i0 = Some err \<longrightarrow>
           startRun None config env = (None, Inl err)
           \<and> \<not> isRunning (fst (runToEnd config env))
           \<and> runErrors (fst (runToEnd config env)) = failureRecord env i0)
        \<and> ((stopOnError config \<longrightarrow> submissionResult env i0 = None)
             \<and> int i0 < submissionCount config - 1
             \<and> (stopDuringSubmission env i0 \<or> stopDuringSleep env i0) \<longrightarrow>
             startRun None config env = (None, Inl (JsError ''Aborted''))
             \<and> \<not> isRunning (fst (runToEnd config env))
             \<and> runErrors (fst (runToEnd config env)) = recordedFailures env (Suc i0))
        \<and> ((stopOnError config \<longrightarrow> submissionResult env i0 = None)
             \<and> (int i0 < submissionCount config - 1 \<longrightarrow>
                  \<not> stopDuringSubmission env i0 \<and> \<not> stopDuringSleep env i0)
             \<and> callbackThrows env i0 = Some err \<longrightarrow>
             startRun None config env = (None, Inl err)
             \<and> \<not> isRunning (fst (runToEnd config env))
             \<and> runErrors (fst (runToEnd config env)) = recordedFailures env (Suc i0)))
   \<and> stopRun None = None \<and> stopRun (Some f) = Some (f\<lparr>aborted := True\<rparr>)"
proof -
  have resolves: "\<exists>p. startRun None config env = (None, Inr p) \<and> \<not> isRunning p
           \<and> currentSubmissionIndex p = int (iterationsRun config env)
           \<and> runErrors p = recordedFailures env (iterationsRun config env)
           \<and> failedSubmissions p = int (length (runErrors p))
           \<and> completedSubmissions p + failedSubmissions p = int (iterationsRun config env)"
    if "noFailureUnderStopOnError config env \<and> noStopBeforeLast config env
        \<and> callbackReturns config env"
  proof -
    from that obtain p where r: "runToEnd config env = (p, None)" "\<not> isRunning p"
      "atIteration env (iterationsRun config env) p"
      using runToEnd_resolves by blast
    have "startRun None config env = (None, Inr p)" using r(1) by (simp add: startRun_def)
    moreover have "currentSubmissionIndex p = int (iterationsRun config env)"
      "runErrors p = recordedFailures env (iterationsRun config env)"
      "failedSubmissions p = int (length (runErrors p))"
      "completedSubmissions p + failedSubmissions p = int (iterationsRun config env)"
      using r(3) unfolding atIteration_def by (elim conjE, simp)+
    ultimately show ?thesis using r(2) by blast
  qed
  have rethrows: "startRun None config env = (None, Inl err)
           \<and> \<not> isRunning (fst (runToEnd config env))
           \<and> runErrors (fst (runToEnd config env)) = failureRecord env i0"
    if a: "int i0 < submissionCount config \<and> undisturbedUntil config env i0"
      and b: "stopOnError config \<and> submissionResult env i0 = Some err"
  proof -
    have t: "\<exists>p. runToEnd config env = (p, Some err) \<and> \<not> isRunning p \<and> atIteration env (Suc i0) p"
      using a b by (intro runToEnd_throws runIteration_rethrows) simp_all
    have "list_all (\<lambda>j. submissionResult env j = None) [0..<i0]"
      using a b by (auto simp: undisturbedUntil_def undisturbed_def list_all_iff)
    then have "recordedFailures env (Suc i0) = failureRecord env i0"
      by (simp add: recordedFailures_Suc recordedFailures_none)
    then show ?thesis using startRun_throws [OF t] by simp
  qed
  have aborts: "startRun None config env = (None, Inl (JsError ''Aborted''))
             \<and> \<not> isRunning (fst (runToEnd config env))
             \<and> runErrors (fst (runToEnd config env)) = recordedFailures env (Suc i0)"
    if a: "int i0 < submissionCount config \<and> undisturbedUntil config env i0"
      and b: "(stopOnError config \<longrightarrow> submissionResult env i0 = None)
             \<and> int i0 < submissionCount config - 1
             \<and> (stopDuringSubmission env i0 \<or> stopDuringSleep env i0)"
  proof -
    have t: "\<exists>p. runToEnd config env = (p, Some (JsError ''Aborted'')) \<and> \<not> isRunning p
                 \<and> atIteration env (Suc i0) p"
      using a b by (intro runToEnd_throws runIteration_aborts) simp_all
    show ?thesis using startRun_throws [OF t] by simp
  qed
  have callback: "startRun None config env = (None, Inl err)
             \<and> \<not> isRunning (fst (runToEnd config env))
             \<and> runErrors (fst (runToEnd config env)) = recordedFailures env (Suc i0)"
    if a: "int i0 < submissionCount config \<and> undisturbedUntil config env i0"
      and b: "(stopOnError config \<longrightarrow> submissionResult env i0 = None)
             \<and> (int i0 < submissionCount config - 1 \<longrightarrow>
                  \<not> stopDuringSubmission env i0 \<and> \<not> stopDuringSleep env i0)
             \<and> callbackThrows env i0 = Some err"
  proof -
    have t: "\<exists>p. runToEnd config env = (p, Some err) \<and> \<not> isRunning p \<and> atIteration env (Suc i0) p"
      using a b by (intro runToEnd_throws runIteration_callback_throws) simp_all
    show ?thesis using startRun_throws [OF t] by simp
  qed
  have stop: "stopRun None = None" "stopRun (Some f) = Some (f\<lparr>aborted := True\<rparr>)"
    by (simp_all add: stopRun_def abortFrame_def)
  show ?thesis
    using resolves rethrows aborts callback stop by (intro conjI impI) blast+
qed

text \<open>
  \<open>startRun\<close> does not always resolve: with stop-on-error on and a failing first
  submission it rejects with that submission's error; when \<open>stopRun\<close> is called during
  the sleep between two submissions it rejects with \<open>Error("Aborted")\<close>; and when the
  progress callback throws it rejects with what the callback threw.
\<close>

theorem startRun_always_resolves_counterexample:
  "snd (startRun None (twoSubmissions True) (quietEnv firstFails)) = Inl (JsError ''no confirmation'')
   \<and> snd (startRun None (twoSubmissions False) interruptedEnv) = Inl (JsError ''Aborted'')
   \<and> snd (startRun None (twoSubmissions False) throwingCallbackEnv) = Inl (JsError ''listener failed'')"
  by (simp add: startRun_def runToEnd_def runLoop.simps runIteration_def afterSubmission_def
      reportProgress_def abortFrame_def twoSubmissions_def quietEnv_def firstFails_def
      interruptedEnv_def throwingCallbackEnv_def initialProgress_def Let_def)

theorem startRun_resolves_or_rethrows_witness:
  "noFailureUnderStopOnError (twoSubmissions False) (quietEnv firstFails)
   \<and> noStopBeforeLast (twoSubmissions False) (quietEnv firstFails)
   \<and> callbackReturns (twoSubmissions False) (quietEnv firstFails)
   \<and> (\<exists>p. startRun None (twoSubmissions False) (quietEnv firstFails) = (None, Inr p)
          \<and> \<not> isRunning p \<and> currentSubmissionIndex p = 2
          \<and> runErrors p = [\<lparr>submissionIndex = 1, errorQuestionId = ''form'',
                              message = ''Error: no confirmation'', timestamp = 1000\<rparr>]
          \<and> failedSubmissions p = 1 \<and> completedSubmissions p = 1)
   \<and> undisturbedUntil (twoSubmissions True) (quietEnv firstFails) 0
   \<and> startRun None (twoSubmissions True) (quietEnv firstFails) = (None, Inl (JsError ''no confirmation''))
   \<and> startRun None (twoSubmissions False) interruptedEnv = (None, Inl (JsError ''Aborted''))
   \<and> startRun None (twoSubmissions False) throwingCallbackEnv = (None, Inl (JsError ''listener failed''))"
proof -
  have h1: "noFailureUnderStopOnError (twoSubmissions False) (quietEnv firstFails)"
    by (simp add: noFailureUnderStopOnError_def twoSubmissions_def)
  have h2: "noStopBeforeLast (twoSubmissions False) (quietEnv firstFails)"
    by (simp add: noStopBeforeLast_def twoSubmissions_def quietEnv_def list_all_iff)
  have h3: "callbackReturns (twoSubmissions False) (quietEnv firstFails)"
    by (simp add: callbackReturns_def twoSubmissions_def quietEnv_def list_all_iff)
  have n: "iterationsRun (twoSubmissions False) (quietEnv firstFails) = 2"
    by (intro trans [OF iterationsRun_all]) (simp_all add: twoSubmissions_def quietEnv_def)
  have rec: "recordedFailures (quietEnv firstFails) 2
             = [\<lparr>submissionIndex = 1, errorQuestionId = ''form'',
                 message = ''Error: no confirmation'', timestamp = 1000\<rparr>]"
    by (simp add: recordedFailures_def failureRecord_def quietEnv_def firstFails_def
        errorToString_def numeral_2_eq_2)
  note quiet = startRun_resolves_or_rethrows [where config = "twoSubmissions False"
      and env = "quietEnv firstFails", THEN conjunct1]
  have "\<exists>p. startRun None (twoSubmissions False) (quietEnv firstFails) = (None, Inr p)
          \<and> \<not> isRunning p
          \<and> currentSubmissionIndex p = int (iterationsRun (twoSubmissions False) (quietEnv firstFails))
          \<and> runErrors p = recordedFailures (quietEnv firstFails)
                            (iterationsRun (twoSubmissions False) (quietEnv firstFails))
          \<and> failedSubmissions p = int (length (runErrors p))
          \<and> completedSubmissions p + failedSubmissions p
              = int (iterationsRun (twoSubmissions False) (quietEnv firstFails))"
    using quiet h1 h2 h3 by blast
  then obtain p where p: "startRun None (twoSubmissions False) (quietEnv firstFails) = (None, Inr p)"
    "\<not> isRunning p" "currentSubmissionIndex p = 2"
    "runErrors p = recordedFailures (quietEnv firstFails) 2"
    "failedSubmissions p = int (length (runErrors p))"
    "completedSubmissions p + failedSubmissions p = 2"
    unfolding n by auto
  have pf: "failedSubmissions p = 1" using p(5) by (simp add: p(4) rec)
  then have pc: "completedSubmissions p = 1" using p(6) by simp
  have a: "\<exists>p. startRun None (twoSubmissions False) (quietEnv firstFails) = (None, Inr p)
          \<and> \<not> isRunning p \<and> currentSubmissionIndex p = 2
          \<and> runErrors p = [\<lparr>submissionIndex = 1, errorQuestionId = ''form'',
                              message = ''Error: no confirmation'', timestamp = 1000\<rparr>]
          \<and> failedSubmissions p = 1 \<and> completedSubmissions p = 1"
    using p(1,2,3) p(4) [unfolded rec] pf pc by blast
  have u: "undisturbedUntil (twoSubmissions True) (quietEnv firstFails) 0"
    "undisturbedUntil (twoSubmissions False) interruptedEnv 0"
    "undisturbedUntil (twoSubmissions False) throwingCallbackEnv 0"
    by (simp_all add: undisturbedUntil_def)
  have c: "int 0 < submissionCount (twoSubmissions True)" "int 0 < submissionCount (twoSubmissions False)"
    by (simp_all add: twoSubmissions_def)
  note loud = startRun_resolves_or_rethrows [where config = "twoSubmissions True"
      and env = "quietEnv firstFails" and ?i0.0 = 0 and err = "JsError ''no confirmation''",
      THEN conjunct2, THEN conjunct1, rule_format, OF conjI [OF c(1) u(1)], THEN conjunct1]
  have b: "startRun None (twoSubmissions True) (quietEnv firstFails) = (None, Inl (JsError ''no confirmation''))"
    using loud by (simp add: twoSubmissions_def quietEnv_def firstFails_def)
  note cut = startRun_resolves_or_rethrows [where config = "twoSubmissions False"
      and env = interruptedEnv and ?i0.0 = 0,
      THEN conjunct2, THEN conjunct1, rule_format, OF conjI [OF c(2) u(2)],
      THEN conjunct2, THEN conjunct1]
  have d: "startRun None (twoSubmissions False) interruptedEnv = (None, Inl (JsError ''Aborted''))"
    using cut by (simp add: twoSubmissions_def quietEnv_def interruptedEnv_def)
  note thrown = startRun_resolves_or_rethrows [where config = "twoSubmissions False"
      and env = throwingCallbackEnv and ?i0.0 = 0 and err = "JsError ''listener failed''",
      THEN conjunct2, THEN conjunct1, rule_format, OF conjI [OF c(2) u(3)],
      THEN conjunct2, THEN conjunct2]
  have e: "startRun None (twoSubmissions False) throwingCallbackEnv = (None, Inl (JsError ''listener failed''))"
    using thrown by (simp add: twoSubmissions_def quietEnv_def throwingCallbackEnv_def)
  show ?thesis using h1 h2 h3 a u(1) b d e by blast
qed

end
